theory Spec2Isabelle
  imports Main
begin

section \<open>The configuration updater (configUpdater) of the Morphic Windows service\<close>

text \<open>
  The module keeps local configuration files in step with a remote server. Its functions
  are embedded one by one: the template expander first (pure string code), then the
  file system and the commit procedure, the downloader, the per-file update and the
  update cycle with its journal.
\<close>

subsection \<open>JavaScript values seen by \<open>expand\<close>\<close>

text \<open>
  The object handed to \<open>expand\<close> is the secrets object: JSON-like data. A number is
  held as the text that JavaScript's ToString gives for it, the only way \<open>expand\<close> uses
  a number. An object is the list of its own properties, each key once.
\<close>

datatype jsval =
    JUndefined
  | JNull
  | JBool bool
  | JNum string
  | JStr string
  | JArr "jsval list"
  | JObj "(string \<times> jsval) list"

definition digit_char :: "nat \<Rightarrow> char" where
  "digit_char d = char_of (48 + d)"

text \<open>Decimal text of a natural number (array indices and lengths).\<close>

fun show_nat :: "nat \<Rightarrow> string" where
  "show_nat n = (if n < 10 then [digit_char n] else show_nat (n div 10) @ [digit_char (n mod 10)])"

declare show_nat.simps [simp del]

text \<open>
  \<open>index_of_key n p\<close>: the position that the property name \<open>p\<close> denotes in a string or
  array of length \<open>n\<close>, when it is the canonical decimal text of an index below \<open>n\<close>.
\<close>

definition index_of_key :: "nat \<Rightarrow> string \<Rightarrow> nat option" where
  "index_of_key n p = find (\<lambda>i. show_nat i = p) [0..<n]"

text \<open>JavaScript truthiness, as \<open>parent && ...\<close> tests it.\<close>

fun truthy :: "jsval \<Rightarrow> bool" where
  "truthy JUndefined = False"
| "truthy JNull = False"
| "truthy (JBool b) = b"
| "truthy (JNum r) = (r \<noteq> ''0'' \<and> r \<noteq> ''NaN'')"
| "truthy (JStr s) = (s \<noteq> [])"
| "truthy (JArr xs) = True"
| "truthy (JObj kvs) = True"

text \<open>
  What the module throws or rejects with. \<open>TypeError\<close> is the exception of the
  JavaScript engine; the others stand for the error objects that the functions of the
  module build, and for what \<open>fs\<close>, \<open>mkdirp\<close> and \<open>crypto\<close> throw.
\<close>

datatype error =
    TypeError
  | MoveFileError
  | MkdirpError
  | UnlinkError
  | HashError
  | DownloadError string
  | ValidateJSONError
  | SaveError

text \<open>
  \<open>own_property v p\<close> is the call \<open>v.hasOwnProperty(p)\<close> together with \<open>v[p]\<close>, for
  a truthy \<open>v\<close>: \<open>Inr (Some (v[p]))\<close> when the call gives true, \<open>Inr None\<close> when it
  gives false. A string owns its length and its characters, an array its length and its
  elements, an object its keys; booleans and numbers own nothing. The method is looked up
  on \<open>v\<close> itself: an object that owns a property named \<open>hasOwnProperty\<close> shadows the
  method of \<open>Object.prototype\<close> with a value that is no function, and the call throws.
\<close>

fun own_property :: "jsval \<Rightarrow> string \<Rightarrow> error + jsval option" where
  "own_property (JObj kvs) p =
     (if map_of kvs ''hasOwnProperty'' \<noteq> None then Inl TypeError else Inr (map_of kvs p))"
| "own_property (JArr xs) p =
     Inr (if p = ''length'' then Some (JNum (show_nat (length xs)))
          else map_option (\<lambda>i. xs ! i) (index_of_key (length xs) p))"
| "own_property (JStr s) p =
     Inr (if p = ''length'' then Some (JNum (show_nat (length s)))
          else map_option (\<lambda>i. JStr [s ! i]) (index_of_key (length s) p))"
| "own_property v p = Inr None"

text \<open>\<open>typeof(value) === "object"\<close>: true of null, arrays and objects.\<close>

fun typeof_object :: "jsval \<Rightarrow> bool" where
  "typeof_object JNull = True"
| "typeof_object (JArr xs) = True"
| "typeof_object (JObj kvs) = True"
| "typeof_object v = False"

fun join_with :: "string \<Rightarrow> string list \<Rightarrow> string" where
  "join_with sep [] = []"
| "join_with sep [x] = x"
| "join_with sep (x # y # ys) = x @ sep @ join_with sep (y # ys)"

text \<open>
  ToString, which \<open>String.prototype.replace\<close> applies to what the callback returns.
  An array is joined with commas, null and undefined elements giving the empty text. An
  object gives \<open>[object Object]\<close> through the \<open>toString\<close> of \<open>Object.prototype\<close>;
  when it owns a property named \<open>toString\<close>, a value that is no function, the conversion
  finds no method that gives a primitive and throws.
\<close>

fun to_string :: "jsval \<Rightarrow> error + string"
  and to_strings :: "jsval list \<Rightarrow> error + string list" where
  "to_string JUndefined = Inr ''undefined''"
| "to_string JNull = Inr ''null''"
| "to_string (JBool b) = Inr (if b then ''true'' else ''false'')"
| "to_string (JNum r) = Inr r"
| "to_string (JStr s) = Inr s"
| "to_string (JArr xs) =
     (case to_strings xs of
        Inl err \<Rightarrow> Inl err
      | Inr texts \<Rightarrow> Inr (join_with '','' texts))"
| "to_string (JObj kvs) =
     (if map_of kvs ''toString'' \<noteq> None then Inl TypeError else Inr ''[object Object]'')"
| "to_strings [] = Inr []"
| "to_strings (x # xs) =
     (case (if x = JUndefined \<or> x = JNull then Inr [] else to_string x) of
        Inl err \<Rightarrow> Inl err
      | Inr text \<Rightarrow>
          (case to_strings xs of
             Inl err \<Rightarrow> Inl err
           | Inr texts \<Rightarrow> Inr (text # texts)))"

subsection \<open>The regular expression of \<open>expand\<close>\<close>

text \<open>
  \<open>/\$\{([^?}]*)(\?([^}]*))?\}/g\<close>. \<open>match_expander s\<close> matches it at the start of
  \<open>s\<close> and gives the expression (group 1), the default (group 3, \<open>None\<close> when group 2
  did not take part) and the text after the match. Both starred classes are greedy and
  followed by a character outside the class, so the match is unique.
\<close>

definition expr_char :: "char \<Rightarrow> bool" where
  "expr_char c = (c \<noteq> CHR ''?'' \<and> c \<noteq> CHR ''}'')"

definition default_char :: "char \<Rightarrow> bool" where
  "default_char c = (c \<noteq> CHR ''}'')"

fun match_expander :: "string \<Rightarrow> (string \<times> string option \<times> string) option" where
  "match_expander (c1 # c2 # rest) =
     (if c1 = CHR ''$'' \<and> c2 = CHR ''{'' then
        (case dropWhile expr_char rest of
           [] \<Rightarrow> None
         | d # r2 \<Rightarrow>
             if d = CHR ''}'' then Some (takeWhile expr_char rest, None, r2)
             else (case dropWhile default_char r2 of
                     [] \<Rightarrow> None
                   | e # r4 \<Rightarrow>
                       Some (takeWhile expr_char rest, Some (takeWhile default_char r2), r4)))
      else None)"
| "match_expander s = None"

lemma dropWhile_Cons_shorter: "dropWhile P xs = y # ys \<Longrightarrow> length ys < length xs"
proof -
  assume a: "dropWhile P xs = y # ys"
  have "length (dropWhile P xs) \<le> length xs"
    by (induction xs) auto
  with a show ?thesis by simp
qed

lemma match_expander_shorter:
  "match_expander s = Some (e, d, rest) \<Longrightarrow> length rest < length s"
proof (induction s rule: match_expander.induct)
  case (1 c1 c2 body)
  then show ?case
    by (auto split: if_splits list.splits dest!: dropWhile_Cons_shorter)
qed simp_all

text \<open>
  A global replace scans from the left: at a match the callback's text is emitted and
  the scan resumes after the match, elsewhere the character is kept.
\<close>

datatype token = Chr char | Expander string "string option"

function scan :: "string \<Rightarrow> token list" where
  "scan [] = []"
| "scan (c # cs) =
     (case match_expander (c # cs) of
        Some (e, d, rest) \<Rightarrow> Expander e d # scan rest
      | None \<Rightarrow> Chr c # scan cs)"
  by pat_completeness auto
termination
proof (relation "measure length")
  fix c cs x2 e y d rest
  assume "match_expander (c # cs) = Some x2" "(e, y) = x2" "(d, rest) = y"
  then have "match_expander (c # cs) = Some (e, d, rest)" by simp
  then show "(rest, c # cs) \<in> measure length"
    by (auto dest: match_expander_shorter)
qed simp_all

declare match_expander.simps [simp del]

subsection \<open>\<open>configUpdater.expand\<close>\<close>

text \<open>The path of an expander: \<open>expression.split(".")\<close>, never empty.\<close>

fun split_dot :: "string \<Rightarrow> string list" where
  "split_dot [] = [[]]"
| "split_dot (c # cs) =
     (if c = CHR ''.'' then [] # split_dot cs
      else (case split_dot cs of
              [] \<Rightarrow> [[c]]
            | x # xs \<Rightarrow> (c # x) # xs))"

text \<open>
  The reduce step:
  \<open>(parent && parent.hasOwnProperty(property)) ? parent[property] : undefined\<close>.
\<close>

definition property_step :: "jsval \<Rightarrow> string \<Rightarrow> error + jsval" where
  "property_step parent property =
     (if truthy parent then
        (case own_property parent property of
           Inl err \<Rightarrow> Inl err
         | Inr (Some v) \<Rightarrow> Inr v
         | Inr None \<Rightarrow> Inr JUndefined)
      else Inr JUndefined)"

text \<open>\<open>reduce\<close> over the path, from the source object; an exception ends it.\<close>

fun reduce_path :: "jsval \<Rightarrow> string list \<Rightarrow> error + jsval" where
  "reduce_path parent [] = Inr parent"
| "reduce_path parent (property # properties) =
     (case property_step parent property of
        Inl err \<Rightarrow> Inl err
      | Inr v \<Rightarrow> reduce_path v properties)"

definition resolve_path :: "jsval \<Rightarrow> string \<Rightarrow> error + jsval" where
  "resolve_path sourceObject expression = reduce_path sourceObject (split_dot expression)"

text \<open>
  The callback of the replace, for one match. It gives the replacement text and whether
  it set \<open>unresolved\<close>. \<open>defaultGroup\<close> is truthy exactly when group 2 took part in
  the match (it then starts with the question mark); \<open>defaultValue\<close> is then a string.
\<close>

definition replacement :: "jsval \<Rightarrow> bool \<Rightarrow> string option \<Rightarrow> error + string \<times> bool" where
  "replacement value alwaysExpand dflt =
     (if value = JUndefined \<or> typeof_object value then
        (let value' = (case dflt of Some defaultValue \<Rightarrow> JStr defaultValue | None \<Rightarrow> value) in
         if value' = JUndefined \<or> value' = JNull then Inr ([], \<not> alwaysExpand)
         else (case to_string value' of
                 Inl err \<Rightarrow> Inl err
               | Inr text \<Rightarrow> Inr (text, False)))
      else (case to_string value of
              Inl err \<Rightarrow> Inl err
            | Inr text \<Rightarrow> Inr (text, False)))"

definition replacer :: "jsval \<Rightarrow> bool \<Rightarrow> string \<Rightarrow> string option \<Rightarrow> error + string \<times> bool" where
  "replacer sourceObject alwaysExpand expression dflt =
     (case resolve_path sourceObject expression of
        Inl err \<Rightarrow> Inl err
      | Inr value \<Rightarrow> replacement value alwaysExpand dflt)"

fun replace_token :: "jsval \<Rightarrow> bool \<Rightarrow> token \<Rightarrow> error + string \<times> bool" where
  "replace_token sourceObject alwaysExpand (Chr c) = Inr ([c], False)"
| "replace_token sourceObject alwaysExpand (Expander e d) = replacer sourceObject alwaysExpand e d"

text \<open>The matches are replaced from the left; an exception of the callback ends the replace.\<close>

fun replace_tokens :: "jsval \<Rightarrow> bool \<Rightarrow> token list \<Rightarrow> error + (string \<times> bool) list" where
  "replace_tokens sourceObject alwaysExpand [] = Inr []"
| "replace_tokens sourceObject alwaysExpand (tok # toks) =
     (case replace_token sourceObject alwaysExpand tok of
        Inl err \<Rightarrow> Inl err
      | Inr r \<Rightarrow>
          (case replace_tokens sourceObject alwaysExpand toks of
             Inl err \<Rightarrow> Inl err
           | Inr rs \<Rightarrow> Inr (r # rs)))"

text \<open>\<open>expand\<close> returns \<open>Inr None\<close> for JavaScript's null, and \<open>Inl\<close> what it throws.\<close>

definition expand :: "string \<Rightarrow> jsval \<Rightarrow> bool \<Rightarrow> error + string option" where
  "expand unexpanded sourceObject alwaysExpand =
     (case replace_tokens sourceObject alwaysExpand (scan unexpanded) of
        Inl err \<Rightarrow> Inl err
      | Inr replaced \<Rightarrow>
          Inr (if list_ex snd replaced then None else Some (concat (map fst replaced))))"

subsection \<open>Configuration, journal and HTTP data\<close>

text \<open>The typedefs of the source: a tracked file, its journal entry, the journal.\<close>

record AutoUpdateFile =
  url :: string
  path :: string
  always :: bool
  isJSON :: bool

record LastUpdate =
  etag :: "string option"
  date :: "string option"
  previous :: "string option"

record LastUpdatesFile =
  lastCheck :: "string option"
  files :: "(string \<rightharpoonup> LastUpdate) option"

text \<open>
  What \<open>JSON5.parse\<close> makes of the journal file. The journal is taken at its declared
  type: a content that parses gives a \<open>LastUpdatesFile\<close> object, or a falsy value
  (null, say), which \<open>loadLastUpdates\<close> replaces.
\<close>

datatype parsed = Throws | Falsy | Parsed LastUpdatesFile

record response =
  statusCode :: nat
  statusMessage :: string
  header_etag :: "string option"
  header_last_modified :: "string option"
  body :: string

datatype http_outcome = RequestError string | Response response

record download_options =
  opt_date :: "string option"
  opt_etag :: "string option"
  opt_hashAlgorithm :: "string option"

datatype DownloadResult = NotModified | Downloaded string "string option" "string option"

text \<open>
  The collaborators of the module, fixed during an update cycle: the host service's
  configuration and secrets, the directories of the machine, the texts of successive
  \<open>Math.random()\<close> calls, the server behind \<open>request.get\<close> (what it answers to a URL
  and request headers), \<open>crypto.createHash\<close> (\<open>None\<close>: it throws), whether
  \<open>JSON.parse\<close> or \<open>JSON5.parse\<close> accepts a content, \<open>JSON5.parse\<close> and
  \<open>JSON.stringify\<close> on the journal, and the clock.
\<close>

record env =
  secrets :: jsval
  lastUpdatesFile :: string
  autoUpdateFiles :: "AutoUpdateFile list"
  programData :: string
  tmpdir :: string
  random :: "nat \<Rightarrow> string"
  server :: "string \<Rightarrow> (string \<times> string) list \<Rightarrow> http_outcome"
  createHash :: "string \<Rightarrow> (string \<Rightarrow> string) option"
  json_valid :: "string \<Rightarrow> bool"
  json5_parse :: "string \<Rightarrow> parsed"
  json_stringify :: "LastUpdatesFile \<Rightarrow> string"
  now :: string

subsection \<open>The world outside the module\<close>

text \<open>
  The file system maps a path to the content of the file there; directories are a set
  of paths. \<open>io\<close> is the trace of the I/O calls made so far, \<open>service_log\<close> the
  lines handed to \<open>service.log\<close>, \<open>service.logWarn\<close> and \<open>service.logImportant\<close>.

  Whether an I/O call fails is up to the environment. \<open>faults\<close> is the schedule of
  such failures: every fallible call takes the next entry, and an exhausted schedule
  means no more faults. \<open>Fault\<close> fails the call and leaves the file system as it was.
  \<open>FaultLeaving r\<close> fails a call that writes a file (copyFile, writeFile, a write
  stream) and leaves \<open>r\<close> at its destination: nothing, or some partial content; on any
  other call it acts as \<open>Fault\<close>. A call on a file that is not there fails by itself.
\<close>

datatype fault = NoFault | Fault | FaultLeaving "string option"

datatype io_call =
    ReadFile string
  | WriteFile string string
  | ReadStream string
  | WriteStream string
  | Rename string string
  | CopyFile string string
  | Unlink string
  | Mkdirp string
  | HttpGet string "(string \<times> string) list"

datatype level = Log | LogWarn | LogImportant

record world =
  disk :: "string \<rightharpoonup> string"
  dirs :: "string set"
  faults :: "fault list"
  io :: "io_call list"
  service_log :: "(level \<times> string) list"
  nrandom :: nat

definition logged :: "level \<Rightarrow> string \<Rightarrow> world \<Rightarrow> world" where
  "logged l message w = w\<lparr>service_log := service_log w @ [(l, message)]\<rparr>"

text \<open>\<open>drawn w\<close> is the fault the next call meets; \<open>called c w\<close> records the call and uses the fault up.\<close>

definition drawn :: "world \<Rightarrow> fault" where
  "drawn w = (case faults w of [] \<Rightarrow> NoFault | f # fs \<Rightarrow> f)"

definition called :: "io_call \<Rightarrow> world \<Rightarrow> world" where
  "called c w = w\<lparr>faults := tl (faults w), io := io w @ [c]\<rparr>"

definition existsSync :: "world \<Rightarrow> string \<Rightarrow> bool" where
  "existsSync w p = (disk w p \<noteq> None \<or> p \<in> dirs w)"

text \<open>\<open>fs.rename\<close>, which replaces a file at the destination. \<open>True\<close>: no error.\<close>

definition fs_rename :: "string \<Rightarrow> string \<Rightarrow> world \<Rightarrow> bool \<times> world" where
  "fs_rename source destination w =
     (let w1 = called (Rename source destination) w in
      case disk w source of
        Some content \<Rightarrow>
          if drawn w = NoFault
          then (True, w1\<lparr>disk := ((disk w)(source := None))(destination \<mapsto> content)\<rparr>)
          else (False, w1)
      | None \<Rightarrow> (False, w1))"

definition fs_copyFile :: "string \<Rightarrow> string \<Rightarrow> world \<Rightarrow> bool \<times> world" where
  "fs_copyFile source destination w =
     (let w1 = called (CopyFile source destination) w in
      case drawn w of
        NoFault \<Rightarrow>
          (case disk w source of
             Some content \<Rightarrow> (True, w1\<lparr>disk := (disk w)(destination \<mapsto> content)\<rparr>)
           | None \<Rightarrow> (False, w1))
      | Fault \<Rightarrow> (False, w1)
      | FaultLeaving r \<Rightarrow> (False, w1\<lparr>disk := (disk w)(destination := r)\<rparr>))"

text \<open>\<open>fs.unlinkSync\<close>. \<open>False\<close>: it threw.\<close>

definition fs_unlinkSync :: "string \<Rightarrow> world \<Rightarrow> bool \<times> world" where
  "fs_unlinkSync p w =
     (let w1 = called (Unlink p) w in
      if drawn w = NoFault \<and> disk w p \<noteq> None
      then (True, w1\<lparr>disk := (disk w)(p := None)\<rparr>)
      else (False, w1))"

text \<open>\<open>fs.readFile\<close> and a read stream: the content, or \<open>None\<close> for an error.\<close>

definition fs_readFile :: "string \<Rightarrow> world \<Rightarrow> string option \<times> world" where
  "fs_readFile p w =
     (if drawn w = NoFault then disk w p else None, called (ReadFile p) w)"

definition fs_readStream :: "string \<Rightarrow> world \<Rightarrow> string option \<times> world" where
  "fs_readStream p w =
     (if drawn w = NoFault then disk w p else None, called (ReadStream p) w)"

definition fs_writeFile :: "string \<Rightarrow> string \<Rightarrow> world \<Rightarrow> bool \<times> world" where
  "fs_writeFile p content w =
     (let w1 = called (WriteFile p content) w in
      case drawn w of
        NoFault \<Rightarrow> (True, w1\<lparr>disk := (disk w)(p \<mapsto> content)\<rparr>)
      | Fault \<Rightarrow> (False, w1)
      | FaultLeaving r \<Rightarrow> (False, w1\<lparr>disk := (disk w)(p := r)\<rparr>))"

text \<open>\<open>fs.createWriteStream(p)\<close> with the response body piped into it.\<close>

definition fs_writeStream :: "string \<Rightarrow> string \<Rightarrow> world \<Rightarrow> bool \<times> world" where
  "fs_writeStream p content w =
     (let w1 = called (WriteStream p) w in
      case drawn w of
        NoFault \<Rightarrow> (True, w1\<lparr>disk := (disk w)(p \<mapsto> content)\<rparr>)
      | Fault \<Rightarrow> (False, w1)
      | FaultLeaving r \<Rightarrow> (False, w1\<lparr>disk := (disk w)(p := r)\<rparr>))"

subsection \<open>Paths\<close>

text \<open>
  Node's \<open>path\<close> module for Windows paths, without its normalisation of \<open>.\<close> and
  \<open>..\<close> segments and of repeated separators: both slashes separate, \<open>join\<close> puts a
  backslash between the segments that are not empty, \<open>basename\<close> is the last segment
  after the drive prefix, and \<open>dirname\<close> is what stands before the last segment.
\<close>

definition backslash :: char where
  "backslash = CHR 0x5C"

definition is_sep :: "char \<Rightarrow> bool" where
  "is_sep c = (c = CHR ''/'' \<or> c = backslash)"

definition path_join :: "string list \<Rightarrow> string" where
  "path_join segments = join_with [backslash] (filter (\<lambda>s. s \<noteq> []) segments)"

definition is_letter :: "char \<Rightarrow> bool" where
  "is_letter c = (let n = of_char c :: nat in (65 \<le> n \<and> n \<le> 90) \<or> (97 \<le> n \<and> n \<le> 122))"

fun strip_drive :: "string \<Rightarrow> string" where
  "strip_drive (c1 # c2 # rest) = (if is_letter c1 \<and> c2 = CHR '':'' then rest else c1 # c2 # rest)"
| "strip_drive p = p"

definition last_segment :: "string \<Rightarrow> string" where
  "last_segment p = rev (takeWhile (\<lambda>c. \<not> is_sep c) (dropWhile is_sep (rev p)))"

definition path_basename :: "string \<Rightarrow> string" where
  "path_basename p = last_segment (strip_drive p)"

definition path_dirname :: "string \<Rightarrow> string" where
  "path_dirname p =
     (let front = dropWhile (\<lambda>c. \<not> is_sep c) (dropWhile is_sep (rev p)) in
      if front = [] then ''.'' else rev (dropWhile is_sep front))"

text \<open>The directories \<open>mkdirp\<close> makes sure of: the directory and every prefix that ends before a separator.\<close>

definition mkdirp_dirs :: "string \<Rightarrow> string list" where
  "mkdirp_dirs d = d # map (\<lambda>i. take i d) (filter (\<lambda>i. is_sep (d ! i)) [0..<length d])"

definition mkdirp_sync :: "string \<Rightarrow> world \<Rightarrow> bool \<times> world" where
  "mkdirp_sync d w =
     (let w1 = called (Mkdirp d) w in
      if drawn w = NoFault then (True, w1\<lparr>dirs := dirs w \<union> set (mkdirp_dirs d)\<rparr>)
      else (False, w1))"

subsection \<open>\<open>configUpdater.moveFile\<close> and \<open>configUpdater.applyUpdate\<close>\<close>

text \<open>
  The start of \<open>moveFile\<close>: make sure the target directory exists. A throw of
  \<open>mkdirp.sync\<close> inside the promise's executor rejects the promise.
\<close>

definition ensure_directory :: "string \<Rightarrow> world \<Rightarrow> bool \<times> world" where
  "ensure_directory destination w =
     (let destDir = path_dirname destination in
      if \<not> existsSync w destDir then mkdirp_sync destDir w else (True, w))"

text \<open>
  \<open>moveFile\<close> resolves with \<open>copy\<close>: \<open>Inr False\<close> when the file was renamed,
  \<open>Inr True\<close> when it was copied. A rename that fails is retried as a copy.
\<close>

function moveFile :: "string \<Rightarrow> string \<Rightarrow> bool \<Rightarrow> world \<Rightarrow> (error + bool) \<times> world" where
  "moveFile source destination copy w =
     (case ensure_directory destination w of
        (False, w1) \<Rightarrow> (Inl MkdirpError, w1)
      | (True, w1) \<Rightarrow>
          if copy then
            (case fs_copyFile source destination w1 of
               (True, w2) \<Rightarrow> (Inr True, w2)
             | (False, w2) \<Rightarrow> (Inl MoveFileError, w2))
          else
            (case fs_rename source destination w1 of
               (True, w2) \<Rightarrow> (Inr False, w2)
             | (False, w2) \<Rightarrow> moveFile source destination True w2))"
  by pat_completeness auto
termination
  by (relation "measure (\<lambda>(source, destination, copy, w). if copy then 0 else 1)") auto

declare moveFile.simps [simp del]

text \<open>
  The backup of the current file, \<open>backupPromise\<close>: \<open>Inr (Some backupPath)\<close> with the
  path that holds the backup, \<open>Inr None\<close> when there was nothing to back up.
\<close>

definition fallback_backupPath :: "env \<Rightarrow> string \<Rightarrow> string" where
  "fallback_backupPath e backupPath = path_join [programData e, ''Morphic'', path_basename backupPath]"

definition backupPromise :: "env \<Rightarrow> string \<Rightarrow> world \<Rightarrow> (error + string option) \<times> world" where
  "backupPromise e destination w =
     (if existsSync w destination then
        (let backupPath = destination @ ''.previous'' in
         case moveFile destination backupPath False w of
           (Inr moved, w1) \<Rightarrow> (Inr (Some backupPath), w1)
         | (Inl err, w1) \<Rightarrow>
             (case moveFile destination (fallback_backupPath e backupPath) False w1 of
                (Inr moved, w2) \<Rightarrow> (Inr (Some (fallback_backupPath e backupPath)), w2)
              | (Inl err2, w2) \<Rightarrow> (Inl err2, w2)))
      else (Inr None, w))"

definition applyUpdate :: "env \<Rightarrow> string \<Rightarrow> string \<Rightarrow> world \<Rightarrow> (error + string option) \<times> world" where
  "applyUpdate e source destination w =
     (case backupPromise e destination w of
        (Inl err, w1) \<Rightarrow> (Inl err, w1)
      | (Inr backupPath, w1) \<Rightarrow>
          (case moveFile source destination True w1 of
             (Inl err, w2) \<Rightarrow> (Inl err, w2)
           | (Inr copied, w2) \<Rightarrow>
               (case fs_unlinkSync source w2 of
                  (False, w3) \<Rightarrow> (Inl UnlinkError, w3)
                | (True, w3) \<Rightarrow> (Inr backupPath, w3))))"

subsection \<open>\<open>configUpdater.hashFile\<close> and \<open>configUpdater.validateJSON\<close>\<close>

definition hashFile :: "env \<Rightarrow> string \<Rightarrow> string option \<Rightarrow> world \<Rightarrow> (error + string) \<times> world" where
  "hashFile e file algorithm w =
     (case createHash e (case algorithm of
                           Some a \<Rightarrow> if a \<noteq> [] then a else ''sha512''
                         | None \<Rightarrow> ''sha512'') of
        None \<Rightarrow> (Inl HashError, w)
      | Some hash \<Rightarrow>
          (case fs_readStream file w of
             (Some content, w1) \<Rightarrow> (Inr (hash content), w1)
           | (None, w1) \<Rightarrow> (Inl HashError, w1)))"

definition validateJSON :: "env \<Rightarrow> string \<Rightarrow> world \<Rightarrow> (error + bool) \<times> world" where
  "validateJSON e file w =
     (case fs_readFile file w of
        (Some content, w1) \<Rightarrow> (Inr (json_valid e content), w1)
      | (None, w1) \<Rightarrow> (Inl ValidateJSONError, w1))"

subsection \<open>\<open>configUpdater.downloadFile\<close>\<close>

definition dquote :: char where
  "dquote = CHR 0x22"

text \<open>\<open>Object.assign({date: null, hashAlgorithm: "sha512"}, options)\<close>.\<close>

definition assign_options :: "download_options option \<Rightarrow> download_options" where
  "assign_options options =
     (case options of
        None \<Rightarrow> \<lparr>opt_date = None, opt_etag = None, opt_hashAlgorithm = Some ''sha512''\<rparr>
      | Some given \<Rightarrow>
          given\<lparr>opt_hashAlgorithm :=
                  (case opt_hashAlgorithm given of None \<Rightarrow> Some ''sha512'' | Some a \<Rightarrow> Some a)\<rparr>)"

text \<open>The request headers; \<open>if (options.etag)\<close> holds of a string that is not empty.\<close>

definition request_headers :: "download_options \<Rightarrow> (string \<times> string) list" where
  "request_headers options =
     (case opt_etag options of
        Some e \<Rightarrow> if e \<noteq> [] then [(''If-None-Match'', [dquote] @ e @ [dquote])] else []
      | None \<Rightarrow> [])
     @ (case opt_date options of
          Some d \<Rightarrow> if d \<noteq> [] then [(''If-Modified-Since'', d)] else []
        | None \<Rightarrow> [])"

text \<open>\<open>String.prototype.substring\<close>: the bounds are swapped when the first is the larger.\<close>

definition substring :: "nat \<Rightarrow> nat \<Rightarrow> string \<Rightarrow> string" where
  "substring a b s = take (max a b - min a b) (drop (min a b) s)"

definition startsWith :: "string \<Rightarrow> string \<Rightarrow> bool" where
  "startsWith s p = (take (length p) s = p)"

definition endsWith :: "string \<Rightarrow> string \<Rightarrow> bool" where
  "endsWith s p = (length p \<le> length s \<and> drop (length s - length p) s = p)"

text \<open>The ETag of a response, \<open>result.etag\<close>: not a weak one, and without its quotes.\<close>

definition result_etag :: "response \<Rightarrow> string option" where
  "result_etag r =
     (case header_etag r of
        None \<Rightarrow> None
      | Some t \<Rightarrow>
          if t \<noteq> [] \<and> \<not> startsWith t ''W/'' then
            (if startsWith t [dquote] \<and> endsWith t [dquote]
             then Some (substring 1 (length t - 1) t)
             else Some t)
          else None)"

text \<open>\<open>response.headers["last-modified"] || undefined\<close>.\<close>

definition result_date :: "response \<Rightarrow> string option" where
  "result_date r =
     (case header_last_modified r of
        None \<Rightarrow> None
      | Some d \<Rightarrow> if d \<noteq> [] then Some d else None)"

text \<open>The handler of the write stream's \<open>finish\<close> event.\<close>

definition on_finish :: "env \<Rightarrow> string \<Rightarrow> download_options \<Rightarrow> response \<Rightarrow> world \<Rightarrow> (error + DownloadResult) \<times> world" where
  "on_finish e localPath options r w =
     (case hashFile e localPath (opt_hashAlgorithm options) (logged Log ''Download complete'' w) of
        (Inr hash, w1) \<Rightarrow> (Inr (Downloaded hash (result_etag r) (result_date r)), w1)
      | (Inl err, w1) \<Rightarrow> (Inl err, w1))"

text \<open>The handler of the request's \<open>response\<close> event.\<close>

definition on_response :: "env \<Rightarrow> string \<Rightarrow> download_options \<Rightarrow> response \<Rightarrow> world \<Rightarrow> (error + DownloadResult) \<times> world" where
  "on_response e localPath options r w =
     (if statusCode r = 200 then
        (case fs_writeStream localPath (body r) (logged Log ''Download response'' w) of
           (True, w1) \<Rightarrow> on_finish e localPath options r w1
         | (False, w1) \<Rightarrow> (Inl (DownloadError ''Unable to download to the local path''), w1))
      else if statusCode r = 304 then (Inr NotModified, logged Log ''Download response'' w)
      else (Inl (DownloadError ''Unable to download: status''), logged Log ''Download response'' w))"

definition requested :: "string \<Rightarrow> (string \<times> string) list \<Rightarrow> world \<Rightarrow> world" where
  "requested u headers w = w\<lparr>io := io w @ [HttpGet u headers]\<rparr>"

definition downloadFile :: "env \<Rightarrow> string \<Rightarrow> string \<Rightarrow> download_options option \<Rightarrow> world \<Rightarrow> (error + DownloadResult) \<times> world" where
  "downloadFile e u localPath options w =
     (case server e u (request_headers (assign_options options)) of
        RequestError message \<Rightarrow>
          (Inl (DownloadError ''Unable to download: request error''),
           requested u (request_headers (assign_options options)) (logged Log ''Downloading'' w))
      | Response r \<Rightarrow>
          on_response e localPath (assign_options options) r
            (requested u (request_headers (assign_options options)) (logged Log ''Downloading'' w)))"

subsection \<open>\<open>configUpdater.updateFile\<close>\<close>

text \<open>
  \<open>hashPromise\<close>: the hash of the existing file, \<open>localHash\<close>. It stays undefined
  (\<open>None\<close>) when there is no file or when hashing fails.
\<close>

definition hashPromise :: "env \<Rightarrow> AutoUpdateFile \<Rightarrow> world \<Rightarrow> string option \<times> world" where
  "hashPromise e update w =
     (if existsSync w (path update) then
        (case hashFile e (path update) (Some ''sha512'') w of
           (Inr hash, w1) \<Rightarrow> (Some hash, w1)
         | (Inl err, w1) \<Rightarrow> (None, logged Log ''updateFile: hash failed'' w1))
      else (None, w))"

definition downloadOptions :: "AutoUpdateFile \<Rightarrow> LastUpdate \<Rightarrow> world \<Rightarrow> download_options option" where
  "downloadOptions update lastUpdate w =
     (if existsSync w (path update) \<and> \<not> always update
      then Some \<lparr>opt_date = date lastUpdate, opt_etag = etag lastUpdate, opt_hashAlgorithm = None\<rparr>
      else None)"

definition tempFile :: "env \<Rightarrow> world \<Rightarrow> string" where
  "tempFile e w = path_join [tmpdir e, ''morphic-update.'' @ random e (nrandom w)]"

definition random_taken :: "world \<Rightarrow> world" where
  "random_taken w = w\<lparr>nrandom := Suc (nrandom w)\<rparr>"

text \<open>
  \<open>downloadPromise\<close>. It resolves with what it leaves in \<open>downloadHash\<close> and
  \<open>togo\<close>; a failed download is logged and resolves, a \<open>validateJSON\<close> that rejects
  rejects it.
\<close>

definition validated :: "env \<Rightarrow> AutoUpdateFile \<Rightarrow> string \<Rightarrow> world \<Rightarrow> (error + bool) \<times> world" where
  "validated e update file w = (if isJSON update then validateJSON e file w else (Inr True, w))"

definition downloadPromise :: "env \<Rightarrow> AutoUpdateFile \<Rightarrow> string \<Rightarrow> string \<Rightarrow> download_options option \<Rightarrow> LastUpdate \<Rightarrow> world \<Rightarrow> (error + string option \<times> LastUpdate) \<times> world" where
  "downloadPromise e update u file options togo w =
     (case downloadFile e u file options w of
        (Inl err, w1) \<Rightarrow> (Inr (None, togo), logged LogWarn ''updateFile: download failed'' w1)
      | (Inr NotModified, w1) \<Rightarrow> (Inr (None, togo), w1)
      | (Inr (Downloaded hash newEtag newDate), w1) \<Rightarrow>
          (case validated e update file w1 of
             (Inl err, w2) \<Rightarrow> (Inl err, w2)
           | (Inr isValid, w2) \<Rightarrow>
               if isValid then (Inr (Some hash, togo\<lparr>etag := newEtag, date := newDate\<rparr>), w2)
               else (Inr (None, togo), w2)))"

text \<open>
  The callback after \<open>Promise.all([downloadPromise, hashPromise])\<close>:
  \<open>if (downloadHash && downloadHash !== localHash)\<close> the update is applied.
\<close>

definition updatePromise :: "env \<Rightarrow> AutoUpdateFile \<Rightarrow> string \<Rightarrow> string option \<Rightarrow> string option \<Rightarrow> LastUpdate \<Rightarrow> world \<Rightarrow> (error + LastUpdate) \<times> world" where
  "updatePromise e update file downloadHash localHash togo w =
     (if downloadHash \<noteq> None \<and> downloadHash \<noteq> Some [] \<and> downloadHash \<noteq> localHash then
        (case applyUpdate e file (path update) w of
           (Inr backupPath, w1) \<Rightarrow> (Inr (togo\<lparr>previous := backupPath\<rparr>), w1)
         | (Inl err, w1) \<Rightarrow> (Inl err, w1))
      else (Inr togo, w))"

text \<open>The body of \<open>updateFile\<close> once the URL is there.\<close>

definition updateFile_url :: "env \<Rightarrow> AutoUpdateFile \<Rightarrow> LastUpdate \<Rightarrow> string \<Rightarrow> world \<Rightarrow> (error + LastUpdate) \<times> world" where
  "updateFile_url e update lastUpdate u w =
     (case downloadPromise e update u (tempFile e (snd (hashPromise e update w)))
             (downloadOptions update lastUpdate w) lastUpdate
             (random_taken (snd (hashPromise e update w))) of
        (Inl err, w1) \<Rightarrow> (Inl err, w1)
      | (Inr (downloadHash, togo), w1) \<Rightarrow>
          updatePromise e update (tempFile e (snd (hashPromise e update w)))
            downloadHash (fst (hashPromise e update w)) togo w1)"

text \<open>
  \<open>updateFile\<close>. What \<open>expand\<close> throws leaves \<open>updateFile\<close> as an exception, before
  there is a promise.
\<close>

definition updateFile :: "env \<Rightarrow> AutoUpdateFile \<Rightarrow> LastUpdate \<Rightarrow> world \<Rightarrow> (error + LastUpdate) \<times> world" where
  "updateFile e update lastUpdate w =
     (case expand (url update) (secrets e) False of
        Inl err \<Rightarrow> (Inl err, w)
      | Inr (Some u) \<Rightarrow>
          if u \<noteq> [] then updateFile_url e update lastUpdate u w
          else (Inr lastUpdate, logged Log (''Not updating '' @ path update @ '': no url'') w)
      | Inr None \<Rightarrow> (Inr lastUpdate, logged Log (''Not updating '' @ path update @ '': no url'') w))"

subsection \<open>The journal: \<open>loadLastUpdates\<close> and \<open>saveLastUpdates\<close>\<close>

definition empty_journal :: LastUpdatesFile where
  "empty_journal = \<lparr>lastCheck = None, files = Some Map.empty\<rparr>"

definition journal_path :: "env \<Rightarrow> string option \<Rightarrow> string" where
  "journal_path e given =
     (case given of
        Some p \<Rightarrow> if p \<noteq> [] then p else lastUpdatesFile e
      | None \<Rightarrow> lastUpdatesFile e)"

definition loadLastUpdates :: "env \<Rightarrow> string option \<Rightarrow> world \<Rightarrow> (error + LastUpdatesFile) \<times> world" where
  "loadLastUpdates e given w =
     (case fs_readFile (journal_path e given) w of
        (None, w1) \<Rightarrow> (Inr empty_journal, logged Log ''Error loading last updates file '' w1)
      | (Some content, w1) \<Rightarrow>
          (case json5_parse e content of
             Throws \<Rightarrow> (Inr empty_journal, logged Log ''Error parsing last updates file '' w1)
           | Falsy \<Rightarrow> (Inr empty_journal, w1)
           | Parsed result \<Rightarrow> (Inr result, w1)))"

definition journal_content :: "env \<Rightarrow> LastUpdatesFile \<Rightarrow> string" where
  "journal_content e lastUpdates =
     ''// This file is automatically generated, and will be over-written.'' @ [CHR 0x0A]
     @ json_stringify e (lastUpdates\<lparr>lastCheck := Some (now e)\<rparr>)"

definition saveLastUpdates :: "env \<Rightarrow> LastUpdatesFile \<Rightarrow> string option \<Rightarrow> world \<Rightarrow> (error + unit) \<times> world" where
  "saveLastUpdates e lastUpdates given w =
     (case fs_writeFile (journal_path e given) (journal_content e lastUpdates) w of
        (True, w1) \<Rightarrow> (Inr (), w1)
      | (False, w1) \<Rightarrow> (Inl SaveError, logged LogWarn ''Error saving last updates file '' w1))"

subsection \<open>\<open>configUpdater.updateAll\<close>\<close>

text \<open>
  A settled promise is its outcome and the world it leaves. \<open>caught\<close> is \<open>.catch\<close>,
  \<open>and_then\<close> is \<open>.then\<close> with one callback, \<open>promise_all\<close> is \<open>Promise.all\<close>: every
  promise of the list runs, and the first rejection, if any, is the outcome. The tasks of
  a cycle run one after the other in the order of the configuration.
\<close>

definition caught :: "(error + 'a) \<times> world \<Rightarrow> (error \<Rightarrow> world \<Rightarrow> (error + 'a) \<times> world) \<Rightarrow> (error + 'a) \<times> world" where
  "caught p handler = (case p of (Inl err, w) \<Rightarrow> handler err w | (Inr v, w) \<Rightarrow> (Inr v, w))"

definition and_then :: "(error + 'a) \<times> world \<Rightarrow> ('a \<Rightarrow> world \<Rightarrow> (error + 'b) \<times> world) \<Rightarrow> (error + 'b) \<times> world" where
  "and_then p callback = (case p of (Inl err, w) \<Rightarrow> (Inl err, w) | (Inr v, w) \<Rightarrow> callback v w)"

fun promise_all :: "(world \<Rightarrow> (error + 'a) \<times> world) list \<Rightarrow> world \<Rightarrow> (error + 'a list) \<times> world" where
  "promise_all [] w = (Inr [], w)"
| "promise_all (p # ps) w =
     (case p w of
        (Inl err, w1) \<Rightarrow> (Inl err, snd (promise_all ps w1))
      | (Inr v, w1) \<Rightarrow>
          (case promise_all ps w1 of
             (Inl err, w2) \<Rightarrow> (Inl err, w2)
           | (Inr vs, w2) \<Rightarrow> (Inr (v # vs), w2)))"

text \<open>\<open>lastUpdates.files[file.path] || {}\<close>, after \<open>if (!lastUpdates.files) lastUpdates.files = {}\<close>.\<close>

definition no_entry :: LastUpdate where
  "no_entry = \<lparr>etag = None, date = None, previous = None\<rparr>"

definition entries :: "LastUpdatesFile \<Rightarrow> string \<rightharpoonup> LastUpdate" where
  "entries lastUpdates = (case files lastUpdates of Some m \<Rightarrow> m | None \<Rightarrow> Map.empty)"

definition entry :: "LastUpdatesFile \<Rightarrow> string \<Rightarrow> LastUpdate" where
  "entry lastUpdates p = (case entries lastUpdates p of Some lastUpdate \<Rightarrow> lastUpdate | None \<Rightarrow> no_entry)"

text \<open>
  The promise made for one file. It resolves with the assignment that its last callback
  makes to \<open>lastUpdates.files\<close>: the path and the new entry, \<open>None\<close> when the catch
  handler ran and nothing is assigned.
\<close>

definition file_promise :: "env \<Rightarrow> LastUpdatesFile \<Rightarrow> AutoUpdateFile \<Rightarrow> world \<Rightarrow> (error + string \<times> LastUpdate option) \<times> world" where
  "file_promise e lastUpdates file w =
     and_then
       (caught
          (and_then (updateFile e file (entry lastUpdates (path file)) w)
             (\<lambda>newLastUpdate w1. (Inr (Some newLastUpdate), w1)))
          (\<lambda>err w1. (Inr None, logged LogWarn ''updateFile error'' w1)))
       (\<lambda>newLastUpdate w1. (Inr (path file, newLastUpdate), w1))"

fun assigned :: "(string \<times> LastUpdate option) list \<Rightarrow> (string \<rightharpoonup> LastUpdate) \<Rightarrow> (string \<rightharpoonup> LastUpdate)" where
  "assigned [] m = m"
| "assigned ((p, None) # rest) m = assigned rest m"
| "assigned ((p, Some newLastUpdate) # rest) m = assigned rest (m(p \<mapsto> newLastUpdate))"

text \<open>
  The result of \<open>saveLastUpdates\<close> is not returned from the last callback: the promise of
  \<open>updateAll\<close> resolves whatever becomes of the write.
\<close>

definition updateAll :: "env \<Rightarrow> world \<Rightarrow> (error + unit) \<times> world" where
  "updateAll e w =
     and_then (loadLastUpdates e None (logged LogImportant ''Checking for configuration updates'' w))
       (\<lambda>lastUpdates w1.
          and_then (promise_all (map (file_promise e lastUpdates) (autoUpdateFiles e)) w1)
            (\<lambda>assignments w2.
               (Inr (),
                snd (saveLastUpdates e
                       (lastUpdates\<lparr>files := Some (assigned assignments (entries lastUpdates))\<rparr>)
                       None w2))))"

section \<open>Statements of the specification\<close>

subsection \<open>The resolution rule of the template expander, in the specification's words\<close>

text \<open>
  A template by its parts: literal texts, and placeholders \<open>${path}\<close> or
  \<open>${path?default}\<close>.
\<close>

datatype item = Text string | Placeholder string "string option"

fun render_item :: "item \<Rightarrow> string" where
  "render_item (Text t) = t"
| "render_item (Placeholder e None) = ''${'' @ e @ ''}''"
| "render_item (Placeholder e (Some d)) = ''${'' @ e @ ''?'' @ d @ ''}''"

definition render :: "item list \<Rightarrow> string" where
  "render items = concat (map render_item items)"

text \<open>
  The parts are those of the template when the placeholders are well formed (no question
  mark or closing brace in the path, no closing brace in the default), a literal text in
  front of a placeholder holds no \<open>${\<close>, the last literal text holds no \<open>${\<close> that
  a closing brace follows, and no two literal texts are neighbours. Every string is the
  rendering of such parts.
\<close>

fun has_opening :: "string \<Rightarrow> bool" where
  "has_opening (c1 # c2 # rest) = ((c1 = CHR ''$'' \<and> c2 = CHR ''{'') \<or> has_opening (c2 # rest))"
| "has_opening t = False"

fun expander_free :: "string \<Rightarrow> bool" where
  "expander_free (c1 # c2 # rest) =
     (if c1 = CHR ''$'' \<and> c2 = CHR ''{'' then CHR ''}'' \<notin> set rest else expander_free (c2 # rest))"
| "expander_free t = True"

fun wf_placeholder :: "string \<Rightarrow> string option \<Rightarrow> bool" where
  "wf_placeholder e None = list_all expr_char e"
| "wf_placeholder e (Some d) = (list_all expr_char e \<and> list_all default_char d)"

fun wf_template :: "item list \<Rightarrow> bool" where
  "wf_template [] = True"
| "wf_template [Text t] = expander_free t"
| "wf_template (Text t # Text u # rest) = False"
| "wf_template (Text t # Placeholder e d # rest) =
     (\<not> has_opening t \<and> wf_template (Placeholder e d # rest))"
| "wf_template (Placeholder e d # rest) = (wf_placeholder e d \<and> wf_template rest)"

text \<open>
  The looked-up value of a path, and the rule of the specification for one placeholder:
  the looked-up value if it is a defined scalar, else the default if there is one, else
  the empty text; the expansion is null when a placeholder ends up empty and
  \<open>alwaysExpand\<close> is false.
\<close>

fun defined_scalar :: "jsval \<Rightarrow> bool" where
  "defined_scalar (JBool b) = True"
| "defined_scalar (JNum r) = True"
| "defined_scalar (JStr s) = True"
| "defined_scalar v = False"

fun scalar_text :: "jsval \<Rightarrow> string" where
  "scalar_text (JBool b) = (if b then ''true'' else ''false'')"
| "scalar_text (JNum r) = r"
| "scalar_text (JStr s) = s"
| "scalar_text v = []"

definition looked_up :: "jsval \<Rightarrow> string \<Rightarrow> jsval" where
  "looked_up context expression =
     (case resolve_path context expression of Inr v \<Rightarrow> v | Inl err \<Rightarrow> JUndefined)"

definition resolve_spec :: "jsval \<Rightarrow> string \<Rightarrow> string option \<Rightarrow> string" where
  "resolve_spec context expression dflt =
     (if defined_scalar (looked_up context expression) then scalar_text (looked_up context expression)
      else (case dflt of Some defaultValue \<Rightarrow> defaultValue | None \<Rightarrow> []))"

fun item_spec :: "jsval \<Rightarrow> item \<Rightarrow> string" where
  "item_spec context (Text t) = t"
| "item_spec context (Placeholder e d) = resolve_spec context e d"

fun ends_up_empty :: "jsval \<Rightarrow> item \<Rightarrow> bool" where
  "ends_up_empty context (Text t) = False"
| "ends_up_empty context (Placeholder e d) = (resolve_spec context e d = [])"

definition expand_spec :: "item list \<Rightarrow> jsval \<Rightarrow> bool \<Rightarrow> string option" where
  "expand_spec items context alwaysExpand =
     (if \<not> alwaysExpand \<and> list_ex (ends_up_empty context) items then None
      else Some (concat (map (item_spec context) items)))"

text \<open>
  The amended rule: a placeholder is unresolved (\<open>None\<close>) only when it has no default
  and its value is no defined scalar. Two cases stay outside it: a placeholder without a
  default whose value is an object or an array, and a lookup that throws.
\<close>

fun composite :: "jsval \<Rightarrow> bool" where
  "composite (JArr xs) = True"
| "composite (JObj kvs) = True"
| "composite v = False"

fun composite_without_default :: "jsval \<Rightarrow> item \<Rightarrow> bool" where
  "composite_without_default context (Placeholder e None) = composite (looked_up context e)"
| "composite_without_default context i = False"

fun lookup_throws :: "jsval \<Rightarrow> item \<Rightarrow> bool" where
  "lookup_throws context (Placeholder e d) =
     (case resolve_path context e of Inl err \<Rightarrow> True | Inr v \<Rightarrow> False)"
| "lookup_throws context (Text t) = False"

definition resolve_amended :: "jsval \<Rightarrow> string \<Rightarrow> string option \<Rightarrow> string option" where
  "resolve_amended context expression dflt =
     (if defined_scalar (looked_up context expression)
      then Some (scalar_text (looked_up context expression))
      else dflt)"

fun item_amended :: "jsval \<Rightarrow> item \<Rightarrow> string option" where
  "item_amended context (Text t) = Some t"
| "item_amended context (Placeholder e d) = resolve_amended context e d"

definition expand_amended :: "item list \<Rightarrow> jsval \<Rightarrow> bool \<Rightarrow> string option" where
  "expand_amended items context alwaysExpand =
     (let resolved = map (item_amended context) items in
      if \<not> alwaysExpand \<and> None \<in> set resolved then None
      else Some (concat (map (\<lambda>r. case r of Some s \<Rightarrow> s | None \<Rightarrow> []) resolved)))"

text \<open>The matches and kept characters that the scan of a rendering finds.\<close>

fun item_tokens :: "item \<Rightarrow> token list" where
  "item_tokens (Text t) = map Chr t"
| "item_tokens (Placeholder e d) = [Expander e d]"

definition example_context :: jsval where
  "example_context = JObj [(''a'', JObj [(''b'', JObj [(''c'', JStr ''result'')])])]"

subsection \<open>The conditional request and the result of a download, in the specification's words\<close>

text \<open>
  The request headers as the specification states them: an \<open>If-None-Match\<close> header with
  the quoted ETag when \<open>options.etag\<close> is present, an \<open>If-Modified-Since\<close> header with
  the date when \<open>options.date\<close> is present.
\<close>

definition headers_spec :: "download_options \<Rightarrow> (string \<times> string) list" where
  "headers_spec options =
     (case opt_etag options of Some t \<Rightarrow> [(''If-None-Match'', [dquote] @ t @ [dquote])] | None \<Rightarrow> [])
     @ (case opt_date options of Some d \<Rightarrow> [(''If-Modified-Since'', d)] | None \<Rightarrow> [])"

text \<open>A header value without the double quotes around it, if it has them.\<close>

definition strip_quotes :: "string \<Rightarrow> string" where
  "strip_quotes t =
     (if 2 \<le> length t \<and> hd t = dquote \<and> last t = dquote then butlast (tl t) else t)"

text \<open>
  The ETag and the date of a result as the specification states them: the ETag header
  without its quotes, absent when the header is missing or is a weak validator; the date
  from the Last-Modified header.
\<close>

definition etag_spec :: "response \<Rightarrow> string option" where
  "etag_spec r =
     (case header_etag r of
        None \<Rightarrow> None
      | Some t \<Rightarrow> if startsWith t ''W/'' then None else Some (strip_quotes t))"

definition date_spec :: "response \<Rightarrow> string option" where
  "date_spec r = header_last_modified r"

text \<open>The amended statements: a header that is there but empty counts as missing.\<close>

definition etag_amended :: "response \<Rightarrow> string option" where
  "etag_amended r =
     (case header_etag r of
        None \<Rightarrow> None
      | Some t \<Rightarrow> if t = [] \<or> startsWith t ''W/'' then None else Some (strip_quotes t))"

definition date_amended :: "response \<Rightarrow> string option" where
  "date_amended r =
     (case header_last_modified r of
        None \<Rightarrow> None
      | Some d \<Rightarrow> if d = [] then None else Some d)"

definition empty_headers_response :: response where
  "empty_headers_response =
     \<lparr>statusCode = 200, statusMessage = ''OK'', header_etag = Some [],
      header_last_modified = Some [], body = ''new''\<rparr>"

text \<open>\<open>only_calls P w w'\<close>: from \<open>w\<close> to \<open>w'\<close> the trace grew, by calls that satisfy \<open>P\<close>.\<close>

definition only_calls :: "(io_call \<Rightarrow> bool) \<Rightarrow> world \<Rightarrow> world \<Rightarrow> bool" where
  "only_calls P w w' = (\<exists>rest. io w' = io w @ rest \<and> list_all P rest)"

text \<open>The calls that only the commit procedure makes.\<close>

fun commit_call :: "io_call \<Rightarrow> bool" where
  "commit_call (Rename s d) = True"
| "commit_call (CopyFile s d) = True"
| "commit_call (Unlink p) = True"
| "commit_call (Mkdirp p) = True"
| "commit_call c = False"

fun http_call :: "io_call \<Rightarrow> bool" where
  "http_call (HttpGet u headers) = True"
| "http_call c = False"

text \<open>The value of \<open>downloadHash\<close> once \<open>downloadPromise\<close> has settled: undefined when it rejected.\<close>

definition downloadHash_of :: "error + string option \<times> LastUpdate \<Rightarrow> string option" where
  "downloadHash_of settled = (case settled of Inr (downloadHash, togo) \<Rightarrow> downloadHash | Inl err \<Rightarrow> None)"

text \<open>
  The values that \<open>updateFile\<close> goes through for a URL \<open>u\<close>: the hash it has of the
  local file, its temporary file, the download it makes and what its download promise
  settles with.
\<close>

definition localHash_of :: "env \<Rightarrow> AutoUpdateFile \<Rightarrow> world \<Rightarrow> string option" where
  "localHash_of e update w = fst (hashPromise e update w)"

definition update_tempFile :: "env \<Rightarrow> AutoUpdateFile \<Rightarrow> world \<Rightarrow> string" where
  "update_tempFile e update w = tempFile e (snd (hashPromise e update w))"

definition update_download :: "env \<Rightarrow> AutoUpdateFile \<Rightarrow> LastUpdate \<Rightarrow> string \<Rightarrow> world \<Rightarrow> (error + DownloadResult) \<times> world" where
  "update_download e update lastUpdate u w =
     downloadFile e u (update_tempFile e update w) (downloadOptions update lastUpdate w)
       (random_taken (snd (hashPromise e update w)))"

definition settled_download :: "env \<Rightarrow> AutoUpdateFile \<Rightarrow> LastUpdate \<Rightarrow> string \<Rightarrow> world \<Rightarrow> (error + string option \<times> LastUpdate) \<times> world" where
  "settled_download e update lastUpdate u w =
     downloadPromise e update u (update_tempFile e update w) (downloadOptions update lastUpdate w)
       lastUpdate (random_taken (snd (hashPromise e update w)))"

text \<open>The downloaded content has a hash, and it is not the hash of the local file.\<close>

definition new_hash :: "env \<Rightarrow> AutoUpdateFile \<Rightarrow> LastUpdate \<Rightarrow> string \<Rightarrow> world \<Rightarrow> bool" where
  "new_hash e update lastUpdate u w =
     (case downloadHash_of (fst (settled_download e update lastUpdate u w)) of
        Some h \<Rightarrow> h \<noteq> [] \<and> localHash_of e update w \<noteq> Some h
      | None \<Rightarrow> False)"

text \<open>
  An update cycle: the journal that \<open>updateAll\<close> has loaded and the world then, the
  world in which each promise of a list starts when they run in turn, the assignment
  that the update of one file leads to (none when \<open>updateFile\<close> rejected), the
  assignments of the cycle, and the journal handed to \<open>saveLastUpdates\<close>.
\<close>

definition loaded_world :: "env \<Rightarrow> world \<Rightarrow> world" where
  "loaded_world e w =
     snd (loadLastUpdates e None (logged LogImportant ''Checking for configuration updates'' w))"

definition loaded_journal :: "env \<Rightarrow> world \<Rightarrow> LastUpdatesFile" where
  "loaded_journal e w =
     (case fst (loadLastUpdates e None (logged LogImportant ''Checking for configuration updates'' w)) of
        Inr lastUpdates \<Rightarrow> lastUpdates
      | Inl err \<Rightarrow> empty_journal)"

fun worlds_before :: "(world \<Rightarrow> (error + 'a) \<times> world) list \<Rightarrow> world \<Rightarrow> world list" where
  "worlds_before [] w = []"
| "worlds_before (p # ps) w = w # worlds_before ps (snd (p w))"

definition outcome_assignment :: "env \<Rightarrow> LastUpdatesFile \<Rightarrow> AutoUpdateFile \<Rightarrow> world \<Rightarrow> string \<times> LastUpdate option" where
  "outcome_assignment e lastUpdates file w =
     (path file,
      case fst (updateFile e file (entry lastUpdates (path file)) w) of
        Inr newLastUpdate \<Rightarrow> Some newLastUpdate
      | Inl err \<Rightarrow> None)"

definition cycle_assignments :: "env \<Rightarrow> world \<Rightarrow> (string \<times> LastUpdate option) list" where
  "cycle_assignments e w =
     (case fst (promise_all (map (file_promise e (loaded_journal e w)) (autoUpdateFiles e))
                  (loaded_world e w)) of
        Inr assignments \<Rightarrow> assignments
      | Inl err \<Rightarrow> [])"

definition saved_journal :: "env \<Rightarrow> world \<Rightarrow> LastUpdatesFile" where
  "saved_journal e w =
     (loaded_journal e w)\<lparr>files := Some (assigned (cycle_assignments e w) (entries (loaded_journal e w)))\<rparr>"

text \<open>
  The calls of the per-file updates: no \<open>fs.writeFile\<close>, and \<open>fs.readFile\<close> only of
  temporary files.
\<close>

definition temp_file :: "env \<Rightarrow> string \<Rightarrow> bool" where
  "temp_file e p = (\<exists>n. p = path_join [tmpdir e, ''morphic-update.'' @ random e n])"

definition update_call :: "env \<Rightarrow> io_call \<Rightarrow> bool" where
  "update_call e c =
     (case c of
        WriteFile p content \<Rightarrow> False
      | ReadFile p \<Rightarrow> temp_file e p
      | _ \<Rightarrow> True)"

subsection \<open>Example inputs\<close>

definition example_response :: response where
  "example_response =
     \<lparr>statusCode = 200, statusMessage = ''OK'', header_etag = Some (dquote # ''v2'' @ [dquote]),
      header_last_modified = Some ''Thu, 01 Jan 1970 00:00:00 GMT'', body = ''new''\<rparr>"

definition example_env :: env where
  "example_env =
     \<lparr>secrets = JObj [],
      lastUpdatesFile = ''/data/last-updates.json5'',
      autoUpdateFiles = [\<lparr>url = ''https://x/f.json'', path = ''/cfg/f.json'', always = False, isJSON = True\<rparr>],
      programData = ''/ProgramData'',
      tmpdir = ''/tmp'',
      random = (\<lambda>n. ''0.'' @ show_nat n),
      server = (\<lambda>u headers. Response example_response),
      createHash = (\<lambda>algorithm. if algorithm = ''sha512'' then Some (\<lambda>content. ''#'' @ content) else None),
      json_valid = (\<lambda>content. content \<noteq> ''not json''),
      json5_parse = (\<lambda>content. Throws),
      json_stringify = (\<lambda>lastUpdates. ''{}''),
      now = ''2019-01-01T00:00:00.000Z''\<rparr>"

definition commit_world :: "fault list \<Rightarrow> world" where
  "commit_world schedule =
     \<lparr>disk = [''/cfg/f.json'' \<mapsto> ''old'', ''/tmp/new'' \<mapsto> ''new''],
      dirs = {''/cfg'', ''/tmp''},
      faults = schedule,
      io = [],
      service_log = [],
      nrandom = 0\<rparr>"

definition download_world :: "fault list \<Rightarrow> world" where
  "download_world schedule =
     \<lparr>disk = [''/cfg/f.json'' \<mapsto> ''new''],
      dirs = {''/cfg'', ''/tmp''},
      faults = schedule,
      io = [],
      service_log = [],
      nrandom = 0\<rparr>"

definition example_file :: AutoUpdateFile where
  "example_file = \<lparr>url = ''https://x/f.json'', path = ''/cfg/f.json'', always = False, isJSON = True\<rparr>"

definition example_lastUpdate :: LastUpdate where
  "example_lastUpdate = \<lparr>etag = Some ''v1'', date = Some ''Wed, 31 Dec 1969 00:00:00 GMT'', previous = None\<rparr>"

text \<open>A world where the local file has the content that the server sends, and one where it has another.\<close>

definition same_world :: world where
  "same_world = download_world []"

definition stale_world :: world where
  "stale_world = (download_world [])\<lparr>disk := [''/cfg/f.json'' \<mapsto> ''old'']\<rparr>"

definition missing_world :: world where
  "missing_world = (download_world [])\<lparr>disk := Map.empty\<rparr>"

definition example_tempFile :: string where
  "example_tempFile = ''/tmp'' @ [backslash] @ ''morphic-update.0.0''"

text \<open>
  A cycle over two files where the first update rejects: the fifth fallible call, the
  read of the temporary file by \<open>validateJSON\<close>, fails.
\<close>

definition other_file :: AutoUpdateFile where
  "other_file = \<lparr>url = ''https://x/g.txt'', path = ''/cfg/g.txt'', always = True, isJSON = False\<rparr>"

definition two_files_env :: env where
  "two_files_env = example_env\<lparr>autoUpdateFiles := [example_file, other_file]\<rparr>"

definition failing_world :: world where
  "failing_world = download_world [NoFault, NoFault, NoFault, NoFault, Fault]"

section \<open>Properties\<close>

subsection \<open>The template expander\<close>

lemma takeWhile_all_stop: "list_all P xs \<Longrightarrow> \<not> P y \<Longrightarrow> takeWhile P (xs @ y # ys) = xs"
  by (induction xs) auto

lemma dropWhile_all_stop: "list_all P xs \<Longrightarrow> \<not> P y \<Longrightarrow> dropWhile P (xs @ y # ys) = y # ys"
  by (induction xs) auto

lemma match_expander_placeholder:
  "wf_placeholder e d \<Longrightarrow> match_expander (render_item (Placeholder e d) @ rest) = Some (e, d, rest)"
  by (cases d)
     (simp_all add: match_expander.simps takeWhile_all_stop dropWhile_all_stop expr_char_def
        default_char_def)

lemma dropWhile_Cons_facts:
  assumes "dropWhile P xs = y # ys"
  shows "\<not> P y" and "xs = takeWhile P xs @ y # ys" and "list_all P (takeWhile P xs)"
proof -
  from assms have "dropWhile P xs \<noteq> []" by simp
  from hd_dropWhile [OF this] assms show "\<not> P y" by simp
  from takeWhile_dropWhile_id [of P xs] assms show "xs = takeWhile P xs @ y # ys" by simp
  show "list_all P (takeWhile P xs)"
    by (simp add: list_all_iff) (meson set_takeWhileD)
qed

lemma match_expander_opening:
  "match_expander (CHR ''$'' # CHR ''{'' # rest) = None \<longleftrightarrow> CHR ''}'' \<notin> set rest"
proof (cases "dropWhile expr_char rest")
  case Nil
  then have "\<forall>x \<in> set rest. expr_char x" by (simp add: dropWhile_eq_Nil_conv)
  then have "CHR ''}'' \<notin> set rest" by (auto simp: expr_char_def)
  with Nil show ?thesis by (simp add: match_expander.simps del: dropWhile_eq_Nil_conv)
next
  case (Cons d r2)
  note facts = dropWhile_Cons_facts [OF Cons]
  show ?thesis
  proof (cases "d = CHR ''}''")
    case True
    with Cons facts(2) have "CHR ''}'' \<in> set rest"
      by (metis in_set_conv_decomp)
    with True Cons show ?thesis by (simp add: match_expander.simps)
  next
    case False
    have notin: "CHR ''}'' \<notin> set (takeWhile expr_char rest)"
    proof
      assume "CHR ''}'' \<in> set (takeWhile expr_char rest)"
      then have "expr_char (CHR ''}'')" by (rule set_takeWhileD [THEN conjunct2])
      then show False by (simp add: expr_char_def)
    qed
    have "set rest = set (takeWhile expr_char rest @ d # r2)"
      by (rule arg_cong [where f = set, OF facts(2)])
    then have split: "set rest = set (takeWhile expr_char rest) \<union> ({d} \<union> set r2)"
      by (simp only: set_append list.set insert_is_Un [symmetric])
    show ?thesis
    proof (cases "dropWhile default_char r2")
      case Nil
      then have "\<forall>x \<in> set r2. default_char x" by (simp add: dropWhile_eq_Nil_conv)
      then have "CHR ''}'' \<notin> set r2" by (auto simp: default_char_def)
      with notin split False have "CHR ''}'' \<notin> set rest" by auto
      with Nil Cons False show ?thesis by (simp add: match_expander.simps del: dropWhile_eq_Nil_conv)
    next
      case (Cons e r4)
      from dropWhile_Cons_facts [OF this] have "e = CHR ''}''" and "r2 = takeWhile default_char r2 @ e # r4"
        by (simp_all add: default_char_def)
      then have "CHR ''}'' \<in> set r2" by (metis in_set_conv_decomp)
      with split have "CHR ''}'' \<in> set rest" by simp
      with Cons \<open>dropWhile expr_char rest = d # r2\<close> False show ?thesis
        by (simp add: match_expander.simps)
    qed
  qed
qed

lemma match_expander_Some:
  assumes "match_expander s = Some (e, d, rest)"
  shows "s = render_item (Placeholder e d) @ rest \<and> wf_placeholder e d"
proof -
  from assms obtain c1 t where s1: "s = c1 # t"
    by (cases s) (simp_all add: match_expander.simps)
  with assms obtain c2 body where s2: "t = c2 # body"
    by (cases t) (simp_all add: match_expander.simps)
  note 1 = s1 [unfolded s2]
  with assms have c: "c1 = CHR ''$''" "c2 = CHR ''{''"
    by (auto simp: match_expander.simps split: if_splits)
  show ?thesis
  proof (cases "dropWhile expr_char body")
    case Nil
    with 1 c assms show ?thesis by (simp add: match_expander.simps del: dropWhile_eq_Nil_conv)
  next
    case (Cons x r2)
    note facts = dropWhile_Cons_facts [OF Cons]
    show ?thesis
    proof (cases "x = CHR ''}''")
      case True
      with 1 c assms Cons have eqs: "e = takeWhile expr_char body" "d = None" "rest = r2"
        by (simp_all add: match_expander.simps)
      have "body = e @ CHR ''}'' # rest"
        unfolding eqs(1) eqs(3) True [symmetric] by (rule facts(2))
      moreover have "list_all expr_char e"
        by (simp only: eqs(1) facts(3))
      ultimately show ?thesis
        by (simp only: 1 c eqs(2) render_item.simps wf_placeholder.simps append.simps
            append_assoc simp_thms)
    next
      case False
      with facts(1) have x: "x = CHR ''?''" by (simp add: expr_char_def)
      show ?thesis
      proof (cases "dropWhile default_char r2")
        case Nil
        with 1 c assms Cons False show ?thesis
          by (simp add: match_expander.simps del: dropWhile_eq_Nil_conv)
      next
        case (Cons y r4)
        note facts2 = dropWhile_Cons_facts [OF Cons]
        from facts2(1) have y: "y = CHR ''}''" by (simp add: default_char_def)
        from 1 c assms \<open>dropWhile expr_char body = x # r2\<close> False Cons
        obtain dv where eqs: "e = takeWhile expr_char body" "d = Some dv"
            "dv = takeWhile default_char r2" "rest = r4"
          by (simp add: match_expander.simps)
        have r2: "r2 = dv @ CHR ''}'' # rest"
          unfolding eqs(3) eqs(4) y [symmetric] by (rule facts2(2))
        have "body = e @ CHR ''?'' # r2"
          unfolding eqs(1) x [symmetric] by (rule facts(2))
        then have "body = e @ CHR ''?'' # dv @ CHR ''}'' # rest"
          by (simp only: r2)
        moreover have "list_all expr_char e"
          by (simp only: eqs(1) facts(3))
        moreover have "list_all default_char dv"
          by (simp only: eqs(3) facts2(3))
        ultimately show ?thesis
          by (simp only: 1 c eqs(2) render_item.simps wf_placeholder.simps append.simps
              append_assoc simp_thms)
      qed
    qed
  qed
qed

lemma match_expander_None:
  "match_expander (c1 # c2 # rest) = None \<longleftrightarrow>
     \<not> (c1 = CHR ''$'' \<and> c2 = CHR ''{'' \<and> CHR ''}'' \<in> set rest)"
proof (cases "c1 = CHR ''$'' \<and> c2 = CHR ''{''")
  case True
  with match_expander_opening [of rest] show ?thesis by simp
next
  case False
  then show ?thesis by (auto simp: match_expander.simps)
qed

lemma match_expander_short [simp]: "match_expander [c] = None" "match_expander [] = None"
  by (simp_all add: match_expander.simps)

lemma scan_no_brace: "CHR ''}'' \<notin> set s \<Longrightarrow> scan s = map Chr s"
proof (induction s)
  case Nil
  show ?case by simp
next
  case (Cons c cs)
  then have "match_expander (c # cs) = None"
    by (cases cs) (simp_all add: match_expander_None)
  with Cons show ?case by simp
qed

lemma scan_expander_free: "expander_free t \<Longrightarrow> scan t = map Chr t"
proof (induction t rule: expander_free.induct)
  case (1 c1 c2 rest)
  show ?case
  proof (cases "c1 = CHR ''$'' \<and> c2 = CHR ''{''")
    case True
    with 1(2) have nb: "CHR ''}'' \<notin> set rest" by simp
    with True have "match_expander (c1 # c2 # rest) = None" by (simp add: match_expander_None)
    moreover from nb True have "scan (c2 # rest) = map Chr (c2 # rest)"
      by (intro scan_no_brace) simp
    ultimately show ?thesis by simp
  next
    case False
    then have "match_expander (c1 # c2 # rest) = None" by (auto simp: match_expander_None)
    moreover from False 1 have "scan (c2 # rest) = map Chr (c2 # rest)" by simp
    ultimately show ?thesis by simp
  qed
qed simp_all

lemma has_opening_Cons: "\<not> has_opening (c # t) \<Longrightarrow> \<not> has_opening t"
  by (cases t) simp_all

lemma scan_text:
  "\<not> has_opening t \<Longrightarrow> s = [] \<or> hd s \<noteq> CHR ''{'' \<Longrightarrow> scan (t @ s) = map Chr t @ scan s"
proof (induction t)
  case Nil
  show ?case by simp
next
  case (Cons c t)
  have "match_expander (c # t @ s) = None"
  proof (cases t)
    case Nil
    with Cons.prems(2) show ?thesis
      by (cases s) (auto simp: match_expander_None)
  next
    case (Cons c2 r)
    with Cons.prems(1) show ?thesis by (auto simp: match_expander_None)
  qed
  with Cons.IH [OF has_opening_Cons [OF Cons.prems(1)] Cons.prems(2)] show ?case by simp
qed

lemma render_Cons [simp]: "render (i # items) = render_item i @ render items"
  by (simp add: render_def)

lemma render_Nil [simp]: "render [] = []"
  by (simp add: render_def)

lemma scan_render: "wf_template items \<Longrightarrow> scan (render items) = concat (map item_tokens items)"
proof (induction items rule: wf_template.induct)
  case 1
  show ?case by simp
next
  case (2 t)
  then show ?case by (simp add: scan_expander_free)
next
  case (3 t u rest)
  then show ?case by simp
next
  case (4 t e d rest)
  have "hd (render (Placeholder e d # rest)) \<noteq> CHR ''{''"
    by (cases d) simp_all
  with 4 have "scan (t @ render (Placeholder e d # rest)) = map Chr t @ scan (render (Placeholder e d # rest))"
    by (intro scan_text) simp_all
  with 4 show ?case by simp
next
  case (5 e d rest)
  then have "match_expander (render_item (Placeholder e d) @ render rest) = Some (e, d, render rest)"
    by (simp add: match_expander_placeholder)
  moreover have "render_item (Placeholder e d) @ render rest \<noteq> []"
    by (cases d) simp_all
  ultimately have "scan (render_item (Placeholder e d) @ render rest) = Expander e d # scan (render rest)"
    by (cases "render_item (Placeholder e d) @ render rest") simp_all
  with 5 show ?case by simp
qed

lemma template_of_string: "\<exists>items. wf_template items \<and> render items = s"
proof (induction s rule: scan.induct)
  case 1
  have "wf_template [] \<and> render [] = []" by simp
  then show ?case by blast
next
  case (2 c cs)
  show ?case
  proof (cases "match_expander (c # cs)")
    case (Some m)
    obtain e d rest where m: "m = (e, d, rest)" by (cases m)
    from 2(2) [OF Some, of e "(d, rest)" d rest] m
    obtain items where items: "wf_template items" "render items = rest" by auto
    from match_expander_Some [of "c # cs" e d rest] Some m
    have "c # cs = render_item (Placeholder e d) @ rest" "wf_placeholder e d" by simp_all
    with items have "wf_template (Placeholder e d # items) \<and> render (Placeholder e d # items) = c # cs"
      by simp
    then show ?thesis by blast
  next
    case None
    from 2(1) [OF None] obtain items where items: "wf_template items" "render items = cs" by auto
    show ?thesis
    proof (cases items rule: wf_template.cases)
      case 1
      with items have "wf_template [Text [c]] \<and> render [Text [c]] = c # cs" by simp
      then show ?thesis by blast
    next
      case (2 t)
      with items have t: "expander_free t" "cs = t" by simp_all
      have "expander_free (c # t)"
      proof (cases t)
        case Nil
        then show ?thesis by simp
      next
        case (Cons c2 r)
        with None t(2) have "\<not> (c = CHR ''$'' \<and> c2 = CHR ''{'' \<and> CHR ''}'' \<in> set r)"
          by (simp add: match_expander_None)
        with Cons t(1) show ?thesis by auto
      qed
      with t have "wf_template [Text (c # t)] \<and> render [Text (c # t)] = c # cs" by simp
      then show ?thesis by blast
    next
      case (3 t u rest)
      with items show ?thesis by simp
    next
      case (4 t e d rest)
      with items have wf: "\<not> has_opening t" "wf_template (Placeholder e d # rest)"
        and cs: "cs = t @ render (Placeholder e d # rest)" by simp_all
      have brace: "CHR ''}'' \<in> set (render_item (Placeholder e d))"
        by (cases d) simp_all
      have "\<not> has_opening (c # t)"
      proof (cases t)
        case Nil
        then show ?thesis by simp
      next
        case (Cons c2 r)
        with None cs have "\<not> (c = CHR ''$'' \<and> c2 = CHR ''{''
            \<and> CHR ''}'' \<in> set (r @ render (Placeholder e d # rest)))"
          by (simp add: match_expander_None)
        with brace have "\<not> (c = CHR ''$'' \<and> c2 = CHR ''{'')" by simp
        with Cons wf(1) show ?thesis by simp
      qed
      with wf cs 4 have "wf_template (Text (c # t) # Placeholder e d # rest)
          \<and> render (Text (c # t) # Placeholder e d # rest) = c # cs" by simp
      then show ?thesis by blast
    next
      case (5 e d rest)
      with items have "wf_template (Text [c] # items) \<and> render (Text [c] # items) = c # cs"
        by simp
      then show ?thesis by blast
    qed
  qed
qed

lemma replace_tokens_text:
  "replace_tokens context a (map Chr t @ toks) =
     (case replace_tokens context a toks of
        Inl err \<Rightarrow> Inl err
      | Inr rs \<Rightarrow> Inr (map (\<lambda>c. ([c], False)) t @ rs))"
  by (induction t) (simp_all split: sum.splits)

lemma replacer_amended:
  assumes "\<not> lookup_throws context (Placeholder e d)"
    and "\<not> composite_without_default context (Placeholder e d)"
  shows "replacer context a e d =
           Inr (case resolve_amended context e d of Some s \<Rightarrow> (s, False) | None \<Rightarrow> ([], \<not> a))"
proof -
  from assms(1) obtain v where v: "resolve_path context e = Inr v"
    by (cases "resolve_path context e") simp_all
  then have l: "looked_up context e = v" by (simp add: looked_up_def)
  show ?thesis
  proof (cases d)
    case None
    with assms(2) l have "\<not> composite v" by simp
    with None v l show ?thesis
      by (cases v) (simp_all add: replacer_def replacement_def resolve_amended_def)
  next
    case (Some dv)
    with v l show ?thesis
      by (cases v) (simp_all add: replacer_def replacement_def resolve_amended_def)
  qed
qed

lemma replace_tokens_items:
  assumes "\<not> list_ex (lookup_throws context) items"
    and "\<not> list_ex (composite_without_default context) items"
  shows "\<exists>rs. replace_tokens context a (concat (map item_tokens items)) = Inr rs
           \<and> concat (map fst rs) =
               concat (map (\<lambda>r. case r of Some s \<Rightarrow> s | None \<Rightarrow> []) (map (item_amended context) items))
           \<and> list_ex snd rs = (\<not> a \<and> None \<in> set (map (item_amended context) items))"
  using assms
proof (induction items)
  case Nil
  show ?case by simp
next
  case (Cons i items)
  then obtain rs where rs: "replace_tokens context a (concat (map item_tokens items)) = Inr rs"
    "concat (map fst rs) =
       concat (map (\<lambda>r. case r of Some s \<Rightarrow> s | None \<Rightarrow> []) (map (item_amended context) items))"
    "list_ex snd rs = (\<not> a \<and> None \<in> set (map (item_amended context) items))"
    by auto
  show ?case
  proof (cases i)
    case (Text t)
    let ?rs = "map (\<lambda>c. ([c], False)) t @ rs"
    have "replace_tokens context a (concat (map item_tokens (i # items))) = Inr ?rs"
      using Text rs(1) by (simp add: replace_tokens_text)
    moreover have "concat (map fst (map (\<lambda>c. ([c], False)) t)) = t"
      by (induction t) simp_all
    moreover have "\<not> list_ex snd (map (\<lambda>c. ([c], False)) t)"
      by (induction t) simp_all
    ultimately show ?thesis
      using Text rs(2) rs(3) by (auto simp: list_ex_iff)
  next
    case (Placeholder e d)
    with Cons.prems have "\<not> lookup_throws context (Placeholder e d)"
      "\<not> composite_without_default context (Placeholder e d)" by simp_all
    from replacer_amended [OF this, of a]
    have "replace_tokens context a (concat (map item_tokens (i # items))) =
        Inr ((case resolve_amended context e d of Some s \<Rightarrow> (s, False) | None \<Rightarrow> ([], \<not> a)) # rs)"
      using Placeholder rs(1) by simp
    then show ?thesis
      using Placeholder rs(2) rs(3) by (cases "resolve_amended context e d") auto
  qed
qed

text \<open>
  Claim C3, as amended. Every template string is a sequence of literal texts and
  placeholders. \<open>expand\<close> resolves each placeholder on its own: the text of the looked-up
  value when it is a defined scalar; else the default when the \<open>?default\<close> form was
  given, also an empty one; else, for a value that is undefined or null, the empty
  text. It returns null exactly when \<open>alwaysExpand\<close> is false and some placeholder
  without a default looked up undefined or null. Left out of the statement are what a
  placeholder without a default gives for an object or an array, and a lookup that
  throws, which it does when an object on the path has a property named
  \<open>hasOwnProperty\<close>. The four examples of the specification hold.
\<close>

theorem expand_resolves_placeholders:
  assumes "wf_template items"
    and "\<not> list_ex (lookup_throws context) items"
    and "\<not> list_ex (composite_without_default context) items"
  shows "expand (render items) context alwaysExpand = Inr (expand_amended items context alwaysExpand)
       \<and> (\<exists>parts. wf_template parts \<and> render parts = template)
       \<and> expand ''${a.b.c}'' example_context False = Inr (Some ''result'')
       \<and> expand ''${a.x?no}'' example_context False = Inr (Some ''no'')
       \<and> expand ''${missing}'' (JObj []) False = Inr None
       \<and> expand ''${missing}'' (JObj []) True = Inr (Some [])"
proof -
  from replace_tokens_items [OF assms(2) assms(3), of alwaysExpand]
  obtain rs where rs: "replace_tokens context alwaysExpand (concat (map item_tokens items)) = Inr rs"
    "concat (map fst rs) =
       concat (map (\<lambda>r. case r of Some s \<Rightarrow> s | None \<Rightarrow> []) (map (item_amended context) items))"
    "list_ex snd rs = (\<not> alwaysExpand \<and> None \<in> set (map (item_amended context) items))"
    by blast
  have "expand (render items) context alwaysExpand =
      Inr (if list_ex snd rs then None else Some (concat (map fst rs)))"
    by (simp only: expand_def scan_render [OF assms(1)] rs(1) sum.case)
  also have "\<dots> = Inr (expand_amended items context alwaysExpand)"
    by (simp only: rs(2) rs(3) expand_amended_def Let_def)
  finally have "expand (render items) context alwaysExpand =
      Inr (expand_amended items context alwaysExpand)" .
  moreover have "\<exists>parts. wf_template parts \<and> render parts = template"
    by (rule template_of_string)
  moreover have "expand ''${a.b.c}'' example_context False = Inr (Some ''result'')"
    unfolding example_context_def by code_simp
  moreover have "expand ''${a.x?no}'' example_context False = Inr (Some ''no'')"
    unfolding example_context_def by code_simp
  moreover have "expand ''${missing}'' (JObj []) False = Inr None"
    by code_simp
  moreover have "expand ''${missing}'' (JObj []) True = Inr (Some [])"
    by code_simp
  ultimately show ?thesis by simp
qed

theorem expand_resolves_placeholders_witness:
  "wf_template [Text ''$5 at https://x/'', Placeholder ''a.b.c'' None, Text ''/'', Placeholder ''k'' (Some []),
                Text ''${open'']
   \<and> \<not> list_ex (lookup_throws example_context)
         [Text ''$5 at https://x/'', Placeholder ''a.b.c'' None, Text ''/'', Placeholder ''k'' (Some []),
          Text ''${open'']
   \<and> \<not> list_ex (composite_without_default example_context)
         [Text ''$5 at https://x/'', Placeholder ''a.b.c'' None, Text ''/'', Placeholder ''k'' (Some []),
          Text ''${open'']
   \<and> expand ''$5 at https://x/${a.b.c}/${k?}${open'' example_context False =
       Inr (Some ''$5 at https://x/result/${open'')"
proof -
  let ?items = "[Text ''$5 at https://x/'', Placeholder ''a.b.c'' None, Text ''/'', Placeholder ''k'' (Some []),
                 Text ''${open'']"
  have wf: "wf_template ?items"
    by (simp add: expr_char_def)
  have nt: "\<not> list_ex (lookup_throws example_context) ?items"
    unfolding example_context_def by code_simp
  have nc: "\<not> list_ex (composite_without_default example_context) ?items"
    unfolding example_context_def by code_simp
  have r: "render ?items = ''$5 at https://x/${a.b.c}/${k?}${open''"
    by (simp add: render_def)
  have a: "expand_amended ?items example_context False = Some ''$5 at https://x/result/${open''"
    unfolding example_context_def by code_simp
  from expand_resolves_placeholders [OF wf nt nc, of False] r a wf nt nc show ?thesis
    by simp
qed

text \<open>
  The claim as it stands asks for null whenever a placeholder ends up empty and
  \<open>alwaysExpand\<close> is false. A placeholder with an empty default ends up empty, and
  \<open>expand\<close> returns the empty text, not null.
\<close>

theorem expand_empty_default_counterexample:
  "wf_template [Placeholder ''a'' (Some [])]
   \<and> expand (render [Placeholder ''a'' (Some [])]) (JObj []) False = Inr (Some [])
   \<and> expand_spec [Placeholder ''a'' (Some [])] (JObj []) False = None"
  by code_simp

text \<open>
  An object looked up by a placeholder without a default is neither replaced by the empty
  text nor counted as unresolved: its ToString text is emitted. A context with a property
  named \<open>hasOwnProperty\<close> makes every lookup in it throw.
\<close>

lemma expand_object_without_default:
  "expand ''${a}'' (JObj [(''a'', JObj [(''b'', JStr ''x'')])]) alwaysExpand = Inr (Some ''[object Object]'')"
  by (cases alwaysExpand; code_simp)

lemma expand_throws:
  "expand ''${a}'' (JObj [(''hasOwnProperty'', JNum ''1'')]) alwaysExpand = Inl TypeError"
  by (cases alwaysExpand; code_simp)

subsection \<open>The commit procedure\<close>

lemma disk_called [simp]: "disk (called c w) = disk w"
  by (simp add: called_def)

lemma files_logged [simp]: "disk (logged l m w) = disk w"
  by (simp add: logged_def)

lemma fs_rename_files:
  assumes "fs_rename s d w = (ok, w')"
  shows "disk w' = (if ok then ((disk w)(s := None))(d := disk w s) else disk w)"
    and "ok \<Longrightarrow> disk w s \<noteq> None"
  using assms by (auto simp: fs_rename_def Let_def split: option.splits if_splits)

lemma fs_copyFile_files:
  assumes "fs_copyFile s d w = (ok, w')"
  shows "p \<noteq> d \<Longrightarrow> disk w' p = disk w p"
    and "ok \<Longrightarrow> disk w' d = disk w s \<and> disk w s \<noteq> None"
  using assms by (auto simp: fs_copyFile_def Let_def split: option.splits fault.splits)

lemma fs_unlinkSync_files:
  assumes "fs_unlinkSync p w = (ok, w')"
  shows "disk w' = (if ok then (disk w)(p := None) else disk w)"
  using assms by (auto simp: fs_unlinkSync_def Let_def split: if_splits)

lemma ensure_directory_files:
  assumes "ensure_directory d w = (ok, w')"
  shows "disk w' = disk w"
  using assms by (auto simp: ensure_directory_def mkdirp_sync_def Let_def split: if_splits)

lemma moveFile_copy_files:
  assumes "moveFile s d True w = (r, w')"
  shows "p \<noteq> d \<Longrightarrow> disk w' p = disk w p"
    and "r = Inr b \<Longrightarrow> disk w' d = disk w s \<and> disk w s \<noteq> None"
proof -
  obtain ok w1 where e: "ensure_directory d w = (ok, w1)" by (cases "ensure_directory d w")
  obtain ok2 w2 where c: "fs_copyFile s d w1 = (ok2, w2)" by (cases "fs_copyFile s d w1")
  have f1: "disk w1 = disk w" using e by (rule ensure_directory_files)
  from assms e c have w': "ok \<Longrightarrow> w' = w2" and r: "ok \<Longrightarrow> r = (if ok2 then Inr True else Inl MoveFileError)"
    and nok: "\<not> ok \<Longrightarrow> w' = w1 \<and> r = Inl MkdirpError"
    by (auto simp: moveFile.simps [of s d True w] split: bool.splits)
  show "p \<noteq> d \<Longrightarrow> disk w' p = disk w p"
    using fs_copyFile_files(1) [OF c, of p] f1 w' nok by (cases ok) auto
  show "r = Inr b \<Longrightarrow> disk w' d = disk w s \<and> disk w s \<noteq> None"
    using fs_copyFile_files(2) [OF c] f1 w' r nok by (cases ok; cases ok2) auto
qed

lemma moveFile_rename_files:
  assumes "moveFile s d False w = (r, w')" and "disk w s = Some c" and "s \<noteq> d"
  shows "p \<noteq> d \<Longrightarrow> p \<noteq> s \<Longrightarrow> disk w' p = disk w p"
    and "r = Inr b \<Longrightarrow> disk w' d = Some c"
    and "r = Inl err \<Longrightarrow> disk w' s = Some c"
proof -
  obtain ok w1 where e: "ensure_directory d w = (ok, w1)" by (cases "ensure_directory d w")
  obtain ok2 w2 where c: "fs_rename s d w1 = (ok2, w2)" by (cases "fs_rename s d w1")
  obtain r3 w3 where m: "moveFile s d True w2 = (r3, w3)" by (cases "moveFile s d True w2")
  have f1: "disk w1 = disk w" using e by (rule ensure_directory_files)
  note f2 = fs_rename_files(1) [OF c]
  note f3 = moveFile_copy_files [OF m]
  from assms(1) e c m have res:
    "(r, w') = (if \<not> ok then (Inl MkdirpError, w1) else if ok2 then (Inr False, w2) else (r3, w3))"
    by (auto simp: moveFile.simps [of s d False w] split: bool.splits)
  show "p \<noteq> d \<Longrightarrow> p \<noteq> s \<Longrightarrow> disk w' p = disk w p"
    using res f1 f2 f3(1) [of p] by (auto split: if_splits)
  show "r = Inr b \<Longrightarrow> disk w' d = Some c"
    using res f1 f2 f3(2) assms(2) by (auto split: if_splits)
  show "r = Inl err \<Longrightarrow> disk w' s = Some c"
    using res f1 f2 f3(1) [of s] assms(2,3) by (auto split: if_splits)
qed



lemma takeWhile_rev_suffix:
  assumes "list_all P ys"
  shows "takeWhile P (rev ys @ zs) = rev ys @ takeWhile P zs"
  by (rule takeWhile_append2) (use assms in \<open>auto simp: list_all_iff\<close>)

lemma last_segment_after_sep:
  assumes "list_all (\<lambda>c. \<not> is_sep c) ys" and "ys \<noteq> []" and "is_sep x"
  shows "last_segment (xs @ x # ys) = ys"
proof -
  have nsep: "\<not> is_sep (last ys)" using assms(1,2) by (simp add: list_all_iff)
  have "dropWhile is_sep (rev (xs @ x # ys)) = rev ys @ x # rev xs"
    using nsep assms(2) by (cases ys rule: rev_cases) simp_all
  moreover have "takeWhile (\<lambda>c. \<not> is_sep c) (rev ys @ x # rev xs) = rev ys"
    using assms(1,3) by (simp add: takeWhile_rev_suffix)
  ultimately show ?thesis by (simp add: last_segment_def)
qed

lemma last_segment_no_sep: "list_all (\<lambda>c. \<not> is_sep c) (last_segment p)"
  by (auto simp: last_segment_def list_all_iff dest: set_takeWhileD)

lemma last_segment_suffix:
  assumes "list_all (\<lambda>c. \<not> is_sep c) ys" and "ys \<noteq> []"
  shows "\<exists>zs. last_segment (xs @ ys) = zs @ ys"
proof -
  have nsep: "\<not> is_sep (last ys)" using assms by (simp add: list_all_iff)
  have "dropWhile is_sep (rev (xs @ ys)) = rev ys @ rev xs"
    using nsep assms(2) by (cases ys rule: rev_cases) simp_all
  then show ?thesis using assms(1)
    by (simp add: last_segment_def takeWhile_rev_suffix)
qed


lemma previous_no_sep: "list_all (\<lambda>c. \<not> is_sep c) ''.previous''"
  by (simp add: is_sep_def backslash_def)

lemma strip_drive_append:
  "2 \<le> length p \<Longrightarrow> strip_drive (p @ q) = strip_drive p @ q"
  by (cases p rule: strip_drive.cases) simp_all

lemma strip_drive_previous: "\<exists>q. strip_drive (p @ ''.previous'') = q @ ''.previous''"
proof (cases p)
  case Nil
  then show ?thesis by (simp add: is_letter_def)
next
  case p: (Cons c1 t)
  show ?thesis
  proof (cases t)
    case Nil
    with p show ?thesis by simp
  next
    case (Cons c2 rest)
    with p show ?thesis by simp
  qed
qed

lemma path_basename_previous:
  "\<exists>zs. path_basename (p @ ''.previous'') = zs @ ''.previous''"
proof -
  obtain q where "strip_drive (p @ ''.previous'') = q @ ''.previous''"
    using strip_drive_previous by blast
  then show ?thesis
    using last_segment_suffix [OF previous_no_sep, of q] by (simp add: path_basename_def)
qed

lemma fallback_backupPath_shape:
  assumes "path_basename backupPath \<noteq> []"
  shows "\<exists>pre. 2 \<le> length pre \<and>
     fallback_backupPath e backupPath = pre @ backslash # path_basename backupPath"
proof (cases "programData e = []")
  case True
  with assms have "fallback_backupPath e backupPath = ''Morphic'' @ backslash # path_basename backupPath"
    by (simp add: fallback_backupPath_def path_join_def)
  then show ?thesis by (intro exI [of _ "''Morphic''"]) simp
next
  case False
  with assms have "fallback_backupPath e backupPath =
      (programData e @ backslash # ''Morphic'') @ backslash # path_basename backupPath"
    by (simp add: fallback_backupPath_def path_join_def)
  then show ?thesis by (intro exI [of _ "programData e @ backslash # ''Morphic''"]) simp
qed

lemma fallback_backupPath_neq:
  "fallback_backupPath e (destination @ ''.previous'') \<noteq> destination"
proof
  define b where "b = path_basename (destination @ ''.previous'')"
  assume eq: "fallback_backupPath e (destination @ ''.previous'') = destination"
  obtain zs where zs: "b = zs @ ''.previous''"
    using path_basename_previous [of destination] by (auto simp: b_def)
  then have "b \<noteq> []" by simp
  then obtain pre where pre: "2 \<le> length pre"
    and shape: "fallback_backupPath e (destination @ ''.previous'') = pre @ backslash # b"
    using fallback_backupPath_shape [of "destination @ ''.previous''" e] by (auto simp: b_def)
  have b_nosep: "list_all (\<lambda>c. \<not> is_sep c) (b @ ''.previous'')"
    using last_segment_no_sep [of "strip_drive (destination @ ''.previous'')"] previous_no_sep
    by (simp add: path_basename_def b_def)
  from eq shape have d: "destination = pre @ backslash # b" by simp
  have "strip_drive (destination @ ''.previous'') = strip_drive pre @ backslash # (b @ ''.previous'')"
    unfolding d using strip_drive_append [OF pre, of "backslash # b @ ''.previous''"] by simp
  then have "last_segment (strip_drive (destination @ ''.previous'')) = b @ ''.previous''"
    using last_segment_after_sep [OF b_nosep, of backslash "strip_drive pre"]
    by (simp add: is_sep_def)
  then have "b = b @ ''.previous''"
    by (simp add: b_def path_basename_def)
  then show False by simp
qed

lemma existsSync_file: "disk w p = Some c \<Longrightarrow> existsSync w p"
  by (simp add: existsSync_def)

lemma backupPromise_missing:
  "\<not> existsSync w d \<Longrightarrow> backupPromise e d w = (Inr None, w)"
  by (simp add: backupPromise_def)

lemma backupPromise_existing:
  assumes "existsSync w d"
  shows "backupPromise e d w =
     (case moveFile d (d @ ''.previous'') False w of
        (Inr moved, w1) \<Rightarrow> (Inr (Some (d @ ''.previous'')), w1)
      | (Inl err, w1) \<Rightarrow>
          (case moveFile d (fallback_backupPath e (d @ ''.previous'')) False w1 of
             (Inr moved, w2) \<Rightarrow> (Inr (Some (fallback_backupPath e (d @ ''.previous''))), w2)
           | (Inl err2, w2) \<Rightarrow> (Inl err2, w2)))"
  using assms by (simp add: backupPromise_def Let_def)

lemma backupPromise_files:
  assumes old: "disk w d = Some old" and run: "backupPromise e d w = (r, w1)"
  shows "r = Inl err \<Longrightarrow> disk w1 d = Some old"
    and "r = Inr bp \<Longrightarrow>
           (bp = Some (d @ ''.previous'') \<or> bp = Some (fallback_backupPath e (d @ ''.previous'')))
           \<and> disk w1 (the bp) = Some old"
    and "r = Inr bp \<Longrightarrow>
           bp = (case fst (moveFile d (d @ ''.previous'') False w) of
                   Inr moved \<Rightarrow> Some (d @ ''.previous'')
                 | Inl err \<Rightarrow> Some (fallback_backupPath e (d @ ''.previous'')))"
proof -
  let ?p1 = "d @ ''.previous''"
  let ?p2 = "fallback_backupPath e ?p1"
  obtain ra wa where a: "moveFile d ?p1 False w = (ra, wa)" by (cases "moveFile d ?p1 False w")
  obtain rb wb where b: "moveFile d ?p2 False wa = (rb, wb)" by (cases "moveFile d ?p2 False wa")
  have n1: "d \<noteq> ?p1" by simp
  have n2: "d \<noteq> ?p2" using fallback_backupPath_neq [of e d] by simp
  note fa = moveFile_rename_files [OF a old n1]
  from run a b have res:
    "(r, w1) = (case ra of Inr moved \<Rightarrow> (Inr (Some ?p1), wa)
                | Inl err \<Rightarrow> (case rb of Inr moved \<Rightarrow> (Inr (Some ?p2), wb) | Inl err2 \<Rightarrow> (Inl err2, wb)))"
    by (simp add: backupPromise_existing [OF existsSync_file [OF old]] split: sum.splits)
  show "r = Inl err \<Longrightarrow> disk w1 d = Some old"
  proof -
    assume r: "r = Inl err"
    with res obtain ea where ra: "ra = Inl ea" by (cases ra) auto
    from fa(3) [OF ra] have olda: "disk wa d = Some old" .
    from r res ra obtain eb where rb: "rb = Inl eb" and w1: "w1 = wb" by (cases rb) auto
    from moveFile_rename_files(3) [OF b olda n2 rb] w1 show ?thesis by simp
  qed
  show "r = Inr bp \<Longrightarrow>
           (bp = Some ?p1 \<or> bp = Some ?p2) \<and> disk w1 (the bp) = Some old"
  proof -
    assume r: "r = Inr bp"
    show ?thesis
    proof (cases ra)
      case (Inr moved)
      with res r have "bp = Some ?p1" "w1 = wa" by auto
      with fa(2) [OF Inr] show ?thesis by simp
    next
      case (Inl ea)
      from fa(3) [OF Inl] have olda: "disk wa d = Some old" .
      from r res Inl obtain moved where rb: "rb = Inr moved" and bp: "bp = Some ?p2" and w1: "w1 = wb"
        by (cases rb) auto
      from moveFile_rename_files(2) [OF b olda n2 rb] bp w1 show ?thesis by simp
    qed
  qed
  show "r = Inr bp \<Longrightarrow>
           bp = (case fst (moveFile d ?p1 False w) of
                   Inr moved \<Rightarrow> Some ?p1
                 | Inl err \<Rightarrow> Some ?p2)"
    using res a by (cases ra; cases rb) auto
qed

lemma applyUpdate_unfold:
  "applyUpdate e s d w =
     (case backupPromise e d w of
        (Inl err, w1) \<Rightarrow> (Inl err, w1)
      | (Inr backupPath, w1) \<Rightarrow>
          (case moveFile s d True w1 of
             (Inl err, w2) \<Rightarrow> (Inl err, w2)
           | (Inr copied, w2) \<Rightarrow>
               (case fs_unlinkSync s w2 of
                  (False, w3) \<Rightarrow> (Inl UnlinkError, w3)
                | (True, w3) \<Rightarrow> (Inr backupPath, w3))))"
  by (simp add: applyUpdate_def)

text \<open>
  Claim C2. Whenever \<open>applyUpdate\<close> fails and the destination file existed beforehand,
  the old file is still at the destination, or at \<open>destination + ".previous"\<close>, or at
  the fallback backup path: never at none of them. This holds for every schedule of
  faults, also for copies that fail leaving a partial or no file at their destination,
  and whichever step rejects (the backup, the move into place, the removal of the
  temporary file).
\<close>

theorem applyUpdate_keeps_old_file:
  assumes old: "disk w destination = Some old"
    and run: "applyUpdate e source destination w = (Inl err, w')"
  shows "disk w' destination = Some old
       \<or> disk w' (destination @ ''.previous'') = Some old
       \<or> disk w' (fallback_backupPath e (destination @ ''.previous'')) = Some old"
proof -
  let ?p1 = "destination @ ''.previous''"
  let ?p2 = "fallback_backupPath e ?p1"
  obtain rb w1 where b: "backupPromise e destination w = (rb, w1)"
    by (cases "backupPromise e destination w")
  obtain rm w2 where m: "moveFile source destination True w1 = (rm, w2)"
    by (cases "moveFile source destination True w1")
  obtain ok w3 where u: "fs_unlinkSync source w2 = (ok, w3)"
    by (cases "fs_unlinkSync source w2")
  note fb = backupPromise_files [OF old b]
  show ?thesis
  proof (cases rb)
    case (Inl eb)
    with run b have "w' = w1" by (simp add: applyUpdate_unfold)
    with fb(1) [OF Inl] show ?thesis by simp
  next
    case (Inr bp)
    from fb(2) [OF Inr] obtain p where p: "bp = Some p" "p = ?p1 \<or> p = ?p2"
      and held: "disk w1 p = Some old" by auto
    have "p \<noteq> destination"
      using p(2) fallback_backupPath_neq [of e destination] by auto
    then have held2: "disk w2 p = Some old"
      using moveFile_copy_files(1) [OF m, of p] held by simp
    have "disk w' p = Some old"
    proof (cases rm)
      case (Inl em)
      with run b m Inr have "w' = w2" by (simp add: applyUpdate_unfold)
      with held2 show ?thesis by simp
    next
      case rm: (Inr copied)
      with run b m u Inr have "ok = False" "w' = w3"
        by (auto simp: applyUpdate_unfold split: bool.splits)
      with fs_unlinkSync_files [OF u] held2 show ?thesis by simp
    qed
    with p(2) show ?thesis by auto
  qed
qed

theorem applyUpdate_keeps_old_file_witness:
  "disk (commit_world [NoFault, Fault]) ''/cfg/f.json'' = Some ''old''
   \<and> fst (applyUpdate example_env ''/tmp/new'' ''/cfg/f.json'' (commit_world [NoFault, Fault]))
       = Inl MoveFileError
   \<and> (disk (snd (applyUpdate example_env ''/tmp/new'' ''/cfg/f.json'' (commit_world [NoFault, Fault])))
         ''/cfg/f.json'' = Some ''old''
      \<or> disk (snd (applyUpdate example_env ''/tmp/new'' ''/cfg/f.json'' (commit_world [NoFault, Fault])))
         (''/cfg/f.json'' @ ''.previous'') = Some ''old''
      \<or> disk (snd (applyUpdate example_env ''/tmp/new'' ''/cfg/f.json'' (commit_world [NoFault, Fault])))
         (fallback_backupPath example_env (''/cfg/f.json'' @ ''.previous'')) = Some ''old'')"
proof -
  let ?run = "applyUpdate example_env ''/tmp/new'' ''/cfg/f.json'' (commit_world [NoFault, Fault])"
  have old: "disk (commit_world [NoFault, Fault]) ''/cfg/f.json'' = Some ''old''"
    by (simp add: commit_world_def)
  have failed: "fst ?run = Inl MoveFileError"
    by code_simp
  then have run: "?run = (Inl MoveFileError, snd ?run)"
    by (simp add: prod_eq_iff)
  from applyUpdate_keeps_old_file [OF old run] old failed show ?thesis
    by blast
qed

text \<open>
  Claim C8. When \<open>applyUpdate\<close> resolves, the temporary file is gone. With no file at
  the destination before, it resolves with no backup path. With a file there, it resolves
  with \<open>destination + ".previous"\<close> when moving the file there succeeded and otherwise
  with the fallback path, which is made of the ProgramData directory, \<open>Morphic\<close> and
  the base name alone of the first backup path; the path it resolves with holds the old
  content (unless it is the temporary file's own path, which has just been removed).
\<close>

theorem applyUpdate_resolves_with_backup_path:
  assumes run: "applyUpdate e source destination w = (Inr backupPath, w')"
  shows "disk w' source = None
       \<and> (\<not> existsSync w destination \<longrightarrow> backupPath = None)
       \<and> (\<forall>old. disk w destination = Some old \<longrightarrow>
             backupPath =
               (case fst (moveFile destination (destination @ ''.previous'') False w) of
                  Inr moved \<Rightarrow> Some (destination @ ''.previous'')
                | Inl err \<Rightarrow> Some (fallback_backupPath e (destination @ ''.previous'')))
             \<and> (\<forall>p. backupPath = Some p \<longrightarrow> p \<noteq> source \<longrightarrow> disk w' p = Some old))
       \<and> fallback_backupPath e (destination @ ''.previous'') =
           path_join [programData e, ''Morphic'', path_basename (destination @ ''.previous'')]
       \<and> list_all (\<lambda>c. \<not> is_sep c) (path_basename (destination @ ''.previous''))"
proof -
  obtain rb w1 where b: "backupPromise e destination w = (rb, w1)"
    by (cases "backupPromise e destination w")
  obtain rm w2 where m: "moveFile source destination True w1 = (rm, w2)"
    by (cases "moveFile source destination True w1")
  obtain ok w3 where u: "fs_unlinkSync source w2 = (ok, w3)"
    by (cases "fs_unlinkSync source w2")
  from run b m u have rb: "rb = Inr backupPath" and ok: "ok" and w': "w' = w3"
    by (auto simp: applyUpdate_unfold split: sum.splits bool.splits)
  have removed: "disk w' = (disk w2)(source := None)"
    using fs_unlinkSync_files [OF u] ok w' by simp
  have gone: "disk w' source = None"
    using removed by simp
  have missing: "\<not> existsSync w destination \<longrightarrow> backupPath = None"
    using b rb by (auto simp: backupPromise_missing)
  have existing: "backupPath =
        (case fst (moveFile destination (destination @ ''.previous'') False w) of
           Inr moved \<Rightarrow> Some (destination @ ''.previous'')
         | Inl err \<Rightarrow> Some (fallback_backupPath e (destination @ ''.previous'')))
      \<and> (\<forall>p. backupPath = Some p \<longrightarrow> p \<noteq> source \<longrightarrow> disk w' p = Some old)"
    if old: "disk w destination = Some old" for old
  proof -
    note fb = backupPromise_files [OF old b]
    from fb(2) [OF rb] obtain q where q: "backupPath = Some q"
      and q12: "q = destination @ ''.previous'' \<or> q = fallback_backupPath e (destination @ ''.previous'')"
      and held: "disk w1 q = Some old" by auto
    have "q \<noteq> destination"
      using q12 fallback_backupPath_neq [of e destination] by auto
    then have "disk w2 q = Some old"
      using moveFile_copy_files(1) [OF m, of q] held by simp
    then have "q \<noteq> source \<longrightarrow> disk w' q = Some old"
      using removed by simp
    then have "\<forall>p. backupPath = Some p \<longrightarrow> p \<noteq> source \<longrightarrow> disk w' p = Some old"
      using q by simp
    with fb(3) [OF rb] show ?thesis by blast
  qed
  have shape: "fallback_backupPath e (destination @ ''.previous'') =
      path_join [programData e, ''Morphic'', path_basename (destination @ ''.previous'')]"
    by (simp add: fallback_backupPath_def)
  have nosep: "list_all (\<lambda>c. \<not> is_sep c) (path_basename (destination @ ''.previous''))"
    by (simp add: path_basename_def last_segment_no_sep)
  from gone missing existing shape nosep show ?thesis by blast
qed

theorem applyUpdate_resolves_with_backup_path_witness:
  "fst (applyUpdate example_env ''/tmp/new'' ''/cfg/f.json'' (commit_world [Fault, Fault]))
     = Inr (Some (''/ProgramData'' @ [backslash] @ ''Morphic'' @ [backslash] @ ''f.json.previous''))
   \<and> disk (commit_world [Fault, Fault]) ''/cfg/f.json'' = Some ''old''
   \<and> disk (snd (applyUpdate example_env ''/tmp/new'' ''/cfg/f.json'' (commit_world [Fault, Fault])))
        ''/tmp/new'' = None
   \<and> disk (snd (applyUpdate example_env ''/tmp/new'' ''/cfg/f.json'' (commit_world [Fault, Fault])))
        (''/ProgramData'' @ [backslash] @ ''Morphic'' @ [backslash] @ ''f.json.previous'') = Some ''old''"
proof -
  let ?w = "commit_world [Fault, Fault]"
  let ?run = "applyUpdate example_env ''/tmp/new'' ''/cfg/f.json'' ?w"
  let ?bp = "''/ProgramData'' @ [backslash] @ ''Morphic'' @ [backslash] @ ''f.json.previous''"
  have old: "disk ?w ''/cfg/f.json'' = Some ''old''"
    by (simp add: commit_world_def)
  have resolved: "fst ?run = Inr (Some ?bp)"
    by code_simp
  then have run: "?run = (Inr (Some ?bp), snd ?run)"
    by (simp add: prod_eq_iff)
  have differ: "?bp \<noteq> ''/tmp/new''"
    by simp
  from applyUpdate_resolves_with_backup_path [OF run] old differ
  have "disk (snd ?run) ''/tmp/new'' = None" and "disk (snd ?run) ?bp = Some ''old''"
    by blast+
  with resolved old show ?thesis by blast
qed

subsection \<open>The trace of I/O calls\<close>

lemma io_logged [simp]: "io (logged l m w) = io w"
  by (simp add: logged_def)

lemma io_called [simp]: "io (called c w) = io w @ [c]"
  by (simp add: called_def)

lemma io_requested [simp]: "io (requested u headers w) = io w @ [HttpGet u headers]"
  by (simp add: requested_def)

lemma io_random_taken [simp]: "io (random_taken w) = io w"
  by (simp add: random_taken_def)

lemma only_calls_refl [simp]: "only_calls P w w"
  by (simp add: only_calls_def)

lemma only_calls_trans: "only_calls P w w1 \<Longrightarrow> only_calls P w1 w2 \<Longrightarrow> only_calls P w w2"
  by (auto simp: only_calls_def)

lemma only_calls_same_io: "io w' = io w \<Longrightarrow> only_calls P w w'"
  by (simp add: only_calls_def)

lemma only_calls_one: "io w' = io w @ [c] \<Longrightarrow> P c \<Longrightarrow> only_calls P w w'"
  by (simp add: only_calls_def)

lemma only_calls_logged [simp]: "only_calls P w (logged l m w') = only_calls P w w'"
  by (simp add: only_calls_def)

lemma only_calls_from_logged [simp]: "only_calls P (logged l m w) w' = only_calls P w w'"
  by (simp add: only_calls_def)

lemma fs_rename_io: "fs_rename s d w = (ok, w') \<Longrightarrow> io w' = io w @ [Rename s d]"
  by (auto simp: fs_rename_def Let_def split: option.splits if_splits)

lemma fs_copyFile_io: "fs_copyFile s d w = (ok, w') \<Longrightarrow> io w' = io w @ [CopyFile s d]"
  by (auto simp: fs_copyFile_def Let_def split: option.splits fault.splits)

lemma fs_unlinkSync_io: "fs_unlinkSync p w = (ok, w') \<Longrightarrow> io w' = io w @ [Unlink p]"
  by (auto simp: fs_unlinkSync_def Let_def split: if_splits)

lemma fs_readFile_io: "fs_readFile p w = (r, w') \<Longrightarrow> io w' = io w @ [ReadFile p]"
  by (auto simp: fs_readFile_def)

lemma fs_readStream_io: "fs_readStream p w = (r, w') \<Longrightarrow> io w' = io w @ [ReadStream p]"
  by (auto simp: fs_readStream_def)

lemma fs_writeFile_io: "fs_writeFile p c w = (ok, w') \<Longrightarrow> io w' = io w @ [WriteFile p c]"
  by (auto simp: fs_writeFile_def Let_def split: fault.splits)

lemma fs_writeStream_io: "fs_writeStream p c w = (ok, w') \<Longrightarrow> io w' = io w @ [WriteStream p]"
  by (auto simp: fs_writeStream_def Let_def split: fault.splits)

lemma hashFile_io:
  assumes "hashFile e file algorithm w = (r, w')" and "P (ReadStream file)"
  shows "only_calls P w w'"
  using assms
  by (auto simp: hashFile_def split: option.splits prod.splits
      intro: only_calls_one dest: fs_readStream_io)

lemma validateJSON_io:
  assumes "validateJSON e file w = (r, w')" and "P (ReadFile file)"
  shows "only_calls P w w'"
  using assms
  by (auto simp: validateJSON_def split: option.splits prod.splits
      intro: only_calls_one dest: fs_readFile_io)

lemma on_finish_io:
  assumes "on_finish e localPath options r w = (res, w')" and "P (ReadStream localPath)"
  shows "only_calls P w w'"
proof -
  obtain rh wh where h: "hashFile e localPath (opt_hashAlgorithm options)
      (logged Log ''Download complete'' w) = (rh, wh)"
    by (cases "hashFile e localPath (opt_hashAlgorithm options) (logged Log ''Download complete'' w)")
  from hashFile_io [OF h, of P] assms(2) have "only_calls P w wh" by simp
  moreover from assms(1) h have "w' = wh"
    by (auto simp: on_finish_def split: sum.splits)
  ultimately show ?thesis by simp
qed

lemma on_response_io:
  assumes "on_response e localPath options r w = (res, w')"
    and "P (ReadStream localPath)" and "P (WriteStream localPath)"
  shows "only_calls P w w'"
proof (cases "statusCode r = 200")
  case True
  obtain ok w1 where s: "fs_writeStream localPath (body r) (logged Log ''Download response'' w) = (ok, w1)"
    by (cases "fs_writeStream localPath (body r) (logged Log ''Download response'' w)")
  from fs_writeStream_io [OF s] assms(3) have a: "only_calls P w w1"
    by (auto intro: only_calls_one)
  show ?thesis
  proof (cases ok)
    case True
    with assms(1) s \<open>statusCode r = 200\<close> have "on_finish e localPath options r w1 = (res, w')"
      by (simp add: on_response_def)
    from on_finish_io [where P = P, OF this] assms(2) have "only_calls P w1 w'" by simp
    with a show ?thesis by (rule only_calls_trans)
  next
    case False
    with assms(1) s \<open>statusCode r = 200\<close> have "w' = w1"
      by (simp add: on_response_def)
    with a show ?thesis by simp
  qed
next
  case False
  with assms(1) show ?thesis
    by (auto simp: on_response_def split: if_splits)
qed

lemma downloadFile_io:
  assumes "downloadFile e u localPath options w = (res, w')"
    and "P (ReadStream localPath)" and "P (WriteStream localPath)"
  shows "\<exists>rest. io w' = io w @ HttpGet u (request_headers (assign_options options)) # rest
           \<and> list_all P rest"
proof (cases "server e u (request_headers (assign_options options))")
  case (RequestError message)
  with assms(1) show ?thesis by (auto simp: downloadFile_def)
next
  case (Response r)
  let ?w0 = "requested u (request_headers (assign_options options)) (logged Log ''Downloading'' w)"
  from Response assms(1) have "on_response e localPath (assign_options options) r ?w0 = (res, w')"
    by (simp add: downloadFile_def)
  from on_response_io [where P = P, OF this] assms(2,3) show ?thesis
    by (auto simp: only_calls_def)
qed

subsection \<open>The downloader\<close>

lemma startsWith_dquote: "startsWith t [dquote] = (t \<noteq> [] \<and> hd t = dquote)"
  by (cases t) (auto simp: startsWith_def)

lemma endsWith_dquote: "endsWith t [dquote] = (t \<noteq> [] \<and> last t = dquote)"
proof (cases t rule: rev_cases)
  case Nil
  then show ?thesis by (simp add: endsWith_def)
next
  case (snoc ys y)
  then show ?thesis by (auto simp: endsWith_def)
qed

lemma substring_strip:
  assumes "t \<noteq> []" and "hd t = dquote" and "last t = dquote"
  shows "substring (Suc 0) (length t - Suc 0) t = strip_quotes t"
proof (cases "2 \<le> length t")
  case True
  then have "substring (Suc 0) (length t - Suc 0) t = take (length t - 2) (drop 1 t)"
    by (auto simp: substring_def min_def max_def numeral_2_eq_2)
  also have "\<dots> = butlast (tl t)"
    by (simp add: butlast_conv_take drop_Suc numeral_2_eq_2)
  finally show ?thesis using True assms by (simp add: strip_quotes_def)
next
  case False
  with assms(1) have "length t = Suc 0" by (cases t; cases "tl t") auto
  then show ?thesis using False by (simp add: substring_def strip_quotes_def)
qed

lemma result_etag_amended: "result_etag r = etag_amended r"
proof (cases "header_etag r")
  case None
  then show ?thesis by (simp add: result_etag_def etag_amended_def)
next
  case (Some t)
  show ?thesis
  proof (cases "t = [] \<or> startsWith t ''W/''")
    case True
    with Some show ?thesis by (auto simp: result_etag_def etag_amended_def)
  next
    case False
    show ?thesis
    proof (cases "hd t = dquote \<and> last t = dquote")
      case True
      with False Some show ?thesis
        by (simp add: result_etag_def etag_amended_def startsWith_dquote endsWith_dquote
            substring_strip)
    next
      case no: False
      with False Some show ?thesis
        by (auto simp: result_etag_def etag_amended_def startsWith_dquote endsWith_dquote
            strip_quotes_def)
    qed
  qed
qed

lemma result_date_amended: "result_date r = date_amended r"
  by (simp add: result_date_def date_amended_def split: option.splits)

lemma on_finish_result:
  assumes "on_finish e localPath options r w = (Inr (Downloaded hash newEtag newDate), w')"
  shows "newEtag = result_etag r \<and> newDate = result_date r"
  using assms by (auto simp: on_finish_def split: prod.splits sum.splits)

lemma on_response_result:
  assumes "on_response e localPath options r w = (Inr (Downloaded hash newEtag newDate), w')"
  shows "statusCode r = 200 \<and> newEtag = result_etag r \<and> newDate = result_date r"
  using assms on_finish_result
  by (auto simp: on_response_def split: prod.splits bool.splits if_splits)

lemma downloaded_etag_date:
  assumes "downloadFile e u localPath options w = (Inr (Downloaded hash newEtag newDate), w')"
  shows "\<exists>r. server e u (request_headers (assign_options options)) = Response r
           \<and> statusCode r = 200
           \<and> newEtag = etag_amended r
           \<and> newDate = date_amended r"
proof (cases "server e u (request_headers (assign_options options))")
  case (RequestError message)
  with assms show ?thesis by (simp add: downloadFile_def)
next
  case (Response r)
  with assms have "on_response e localPath (assign_options options) r
      (requested u (request_headers (assign_options options)) (logged Log ''Downloading'' w))
    = (Inr (Downloaded hash newEtag newDate), w')"
    by (simp add: downloadFile_def)
  from on_response_result [OF this] Response show ?thesis
    by (simp add: result_etag_amended result_date_amended)
qed

text \<open>
  Claim C7, as amended. For every download that resolves with a result, the server
  answered with status 200; the result's ETag is the response's ETag header without the
  double quotes around it, absent when the header is missing, empty or a weak validator
  (\<open>W/\<close>); the result's date is the Last-Modified header, absent when that header is
  missing or empty.
\<close>

theorem downloadFile_result_etag_date:
  assumes "downloadFile e u localPath options w = (Inr (Downloaded hash newEtag newDate), w')"
  shows "\<exists>r. server e u (request_headers (assign_options options)) = Response r
           \<and> statusCode r = 200
           \<and> newEtag = etag_amended r
           \<and> newDate = date_amended r"
  using assms by (rule downloaded_etag_date)

theorem downloadFile_result_etag_date_witness:
  "fst (downloadFile example_env ''https://x/f.json'' ''/tmp/t'' None (download_world []))
     = Inr (Downloaded ''#new'' (Some ''v2'') (Some ''Thu, 01 Jan 1970 00:00:00 GMT''))
   \<and> (\<exists>r. server example_env ''https://x/f.json'' (request_headers (assign_options None)) = Response r
           \<and> statusCode r = 200
           \<and> Some ''v2'' = etag_amended r
           \<and> Some ''Thu, 01 Jan 1970 00:00:00 GMT'' = date_amended r)"
proof -
  let ?run = "downloadFile example_env ''https://x/f.json'' ''/tmp/t'' None (download_world [])"
  have resolved: "fst ?run = Inr (Downloaded ''#new'' (Some ''v2'') (Some ''Thu, 01 Jan 1970 00:00:00 GMT''))"
    by code_simp
  then have run: "?run = (Inr (Downloaded ''#new'' (Some ''v2'') (Some ''Thu, 01 Jan 1970 00:00:00 GMT'')), snd ?run)"
    by (simp add: prod_eq_iff)
  from downloadFile_result_etag_date [OF run] resolved show ?thesis
    by blast
qed

text \<open>
  The claim as it stands gives a result whose ETag is the header without its quotes
  whenever the header is there and not weak. For an ETag header that is there with an
  empty value the result has no ETag, and for an empty Last-Modified header no date.
\<close>

theorem result_etag_empty_header_counterexample:
  "result_etag empty_headers_response = None
   \<and> etag_spec empty_headers_response = Some []
   \<and> result_date empty_headers_response = None
   \<and> date_spec empty_headers_response = Some []"
  by (simp add: result_etag_def etag_spec_def result_date_def date_spec_def
      empty_headers_response_def startsWith_def strip_quotes_def)

text \<open>
  Claim C5, as amended. The request that \<open>downloadFile\<close> sends is the first I/O call it
  makes. It carries an \<open>If-None-Match\<close> header, the ETag between double quotes, exactly
  when \<open>options.etag\<close> is a string that is not empty, and an \<open>If-Modified-Since\<close>
  header, the date, exactly when \<open>options.date\<close> is a string that is not empty; it
  carries no other header, and none at all when no options are passed. A stored ETag
  \<open>abc\<close> gives \<open>If-None-Match: "abc"\<close>.
\<close>

theorem downloadFile_request_headers:
  "(\<exists>rest. io (snd (downloadFile e u localPath options w)) =
       io w @ HttpGet u (request_headers (assign_options options)) # rest)
   \<and> map_of (request_headers (assign_options options)) ''If-None-Match'' =
       (case options of
          None \<Rightarrow> None
        | Some given \<Rightarrow>
            (case opt_etag given of
               None \<Rightarrow> None
             | Some t \<Rightarrow> if t = [] then None else Some ([dquote] @ t @ [dquote])))
   \<and> map_of (request_headers (assign_options options)) ''If-Modified-Since'' =
       (case options of
          None \<Rightarrow> None
        | Some given \<Rightarrow>
            (case opt_date given of
               None \<Rightarrow> None
             | Some d \<Rightarrow> if d = [] then None else Some d))
   \<and> set (map fst (request_headers (assign_options options))) \<subseteq> {''If-None-Match'', ''If-Modified-Since''}
   \<and> request_headers (assign_options None) = []
   \<and> request_headers (assign_options (Some \<lparr>opt_date = None, opt_etag = Some ''abc'', opt_hashAlgorithm = None\<rparr>))
       = [(''If-None-Match'', [dquote] @ ''abc'' @ [dquote])]"
proof -
  obtain res w' where run: "downloadFile e u localPath options w = (res, w')"
    by (cases "downloadFile e u localPath options w")
  from downloadFile_io [where P = "\<lambda>c. True", OF run]
  have first: "\<exists>rest. io (snd (downloadFile e u localPath options w)) =
       io w @ HttpGet u (request_headers (assign_options options)) # rest"
    using run by auto
  have etag_header: "map_of (request_headers (assign_options options)) ''If-None-Match'' =
       (case options of
          None \<Rightarrow> None
        | Some given \<Rightarrow>
            (case opt_etag given of
               None \<Rightarrow> None
             | Some t \<Rightarrow> if t = [] then None else Some ([dquote] @ t @ [dquote])))"
    by (simp add: request_headers_def assign_options_def split: option.splits)
  have date_header: "map_of (request_headers (assign_options options)) ''If-Modified-Since'' =
       (case options of
          None \<Rightarrow> None
        | Some given \<Rightarrow>
            (case opt_date given of
               None \<Rightarrow> None
             | Some d \<Rightarrow> if d = [] then None else Some d))"
    by (simp add: request_headers_def assign_options_def split: option.splits)
  have others: "set (map fst (request_headers (assign_options options)))
      \<subseteq> {''If-None-Match'', ''If-Modified-Since''}"
    by (auto simp: request_headers_def split: option.splits if_splits)
  have none: "request_headers (assign_options None) = []"
    by (simp add: request_headers_def assign_options_def)
  have abc: "request_headers (assign_options (Some \<lparr>opt_date = None, opt_etag = Some ''abc'', opt_hashAlgorithm = None\<rparr>))
       = [(''If-None-Match'', [dquote] @ ''abc'' @ [dquote])]"
    by (simp add: request_headers_def assign_options_def)
  from first etag_header date_header others none abc show ?thesis
    by blast
qed

text \<open>
  The claim as it stands sends \<open>If-None-Match\<close> whenever \<open>options.etag\<close> is present.
  An ETag that is the empty string is present and sends no header. Such an ETag is what
  a response with the header \<open>ETag: ""\<close> leaves in the journal.
\<close>

theorem request_headers_empty_etag_counterexample:
  "request_headers (assign_options (Some \<lparr>opt_date = None, opt_etag = Some [], opt_hashAlgorithm = None\<rparr>)) = []
   \<and> headers_spec (assign_options (Some \<lparr>opt_date = None, opt_etag = Some [], opt_hashAlgorithm = None\<rparr>))
       = [(''If-None-Match'', [dquote, dquote])]"
  by (simp add: request_headers_def headers_spec_def assign_options_def)

lemma result_etag_empty_quoted:
  "result_etag \<lparr>statusCode = 200, statusMessage = ''OK'', header_etag = Some [dquote, dquote],
      header_last_modified = None, body = content\<rparr> = Some []"
  by (simp add: result_etag_def startsWith_def endsWith_def substring_def dquote_def)

subsection \<open>The journal\<close>

text \<open>
  Claim C9. \<open>loadLastUpdates\<close> never rejects. When the journal file is missing, cannot
  be read, or has a content that \<open>JSON5.parse\<close> throws on, it resolves with the empty
  journal, whose \<open>files\<close> map is empty; it has then read the file once and logged one
  line, and nothing else has changed.
\<close>

theorem loadLastUpdates_never_fails:
  assumes "disk w (journal_path e given) = None
         \<or> drawn w \<noteq> NoFault
         \<or> (\<exists>content. disk w (journal_path e given) = Some content \<and> json5_parse e content = Throws)"
  shows "loadLastUpdates e given w =
           (Inr empty_journal,
            logged Log
              (if drawn w = NoFault \<and> disk w (journal_path e given) \<noteq> None
               then ''Error parsing last updates file ''
               else ''Error loading last updates file '')
              (called (ReadFile (journal_path e given)) w))
       \<and> files empty_journal = Some Map.empty
       \<and> (\<forall>e' given' w'. \<exists>lastUpdates. fst (loadLastUpdates e' given' w') = Inr lastUpdates)"
proof -
  have never: "\<exists>lastUpdates. fst (loadLastUpdates e' given' w') = Inr lastUpdates" for e' given' w'
    by (simp add: loadLastUpdates_def split: prod.splits option.splits parsed.splits)
  have "loadLastUpdates e given w =
           (Inr empty_journal,
            logged Log
              (if drawn w = NoFault \<and> disk w (journal_path e given) \<noteq> None
               then ''Error parsing last updates file ''
               else ''Error loading last updates file '')
              (called (ReadFile (journal_path e given)) w))"
  proof (cases "drawn w = NoFault")
    case False
    then show ?thesis by (simp add: loadLastUpdates_def fs_readFile_def)
  next
    case True
    show ?thesis
    proof (cases "disk w (journal_path e given)")
      case None
      with True show ?thesis by (simp add: loadLastUpdates_def fs_readFile_def)
    next
      case (Some content)
      with True assms have "json5_parse e content = Throws" by auto
      with True Some show ?thesis by (simp add: loadLastUpdates_def fs_readFile_def)
    qed
  qed
  with never show ?thesis by (simp add: empty_journal_def)
qed

theorem loadLastUpdates_never_fails_witness:
  "disk (download_world []) (journal_path example_env None) = None
   \<and> loadLastUpdates example_env None (download_world []) =
       (Inr empty_journal,
        logged Log ''Error loading last updates file ''
          (called (ReadFile ''/data/last-updates.json5'') (download_world [])))"
proof -
  have p: "journal_path example_env None = ''/data/last-updates.json5''"
    by (simp add: journal_path_def example_env_def)
  have missing: "disk (download_world []) (journal_path example_env None) = None"
    unfolding p by (simp add: download_world_def)
  from loadLastUpdates_never_fails [of "download_world []" example_env None] missing
  have "loadLastUpdates example_env None (download_world []) =
      (Inr empty_journal,
       logged Log
         (if drawn (download_world []) = NoFault
             \<and> disk (download_world []) (journal_path example_env None) \<noteq> None
          then ''Error parsing last updates file ''
          else ''Error loading last updates file '')
         (called (ReadFile (journal_path example_env None)) (download_world [])))"
    by blast
  with missing show ?thesis unfolding p by simp
qed

subsection \<open>The update of one file\<close>

lemma disk_requested [simp]: "disk (requested u headers w) = disk w"
  by (simp add: requested_def)

lemma disk_random_taken [simp]: "disk (random_taken w) = disk w"
  by (simp add: random_taken_def)

lemma only_calls_filter:
  assumes "only_calls (\<lambda>c. \<not> Q c) w w'"
  shows "filter Q (io w') = filter Q (io w)"
proof -
  from assms obtain rest where "io w' = io w @ rest" and "list_all (\<lambda>c. \<not> Q c) rest"
    by (auto simp: only_calls_def)
  then show ?thesis by (simp add: list_all_iff)
qed

lemma hashFile_disk: "hashFile e file algorithm w = (r, w') \<Longrightarrow> disk w' = disk w"
  by (auto simp: hashFile_def fs_readStream_def split: option.splits prod.splits)

lemma validateJSON_disk: "validateJSON e file w = (r, w') \<Longrightarrow> disk w' = disk w"
  by (auto simp: validateJSON_def fs_readFile_def split: option.splits prod.splits)

lemma fs_writeStream_disk:
  assumes "fs_writeStream p content w = (ok, w')"
  shows "q \<noteq> p \<Longrightarrow> disk w' q = disk w q"
    and "ok \<Longrightarrow> disk w' p = Some content"
  using assms by (auto simp: fs_writeStream_def Let_def split: fault.splits)

lemma on_finish_disk: "on_finish e localPath options r w = (res, w') \<Longrightarrow> disk w' = disk w"
  by (auto simp: on_finish_def split: prod.splits sum.splits dest: hashFile_disk)

lemma on_response_disk:
  assumes "on_response e localPath options r w = (res, w')"
  shows "q \<noteq> localPath \<Longrightarrow> disk w' q = disk w q"
    and "res = Inr (Downloaded hash newEtag newDate) \<Longrightarrow> disk w' localPath = Some (body r)"
proof -
  obtain ok w1 where s: "fs_writeStream localPath (body r) (logged Log ''Download response'' w) = (ok, w1)"
    by (cases "fs_writeStream localPath (body r) (logged Log ''Download response'' w)")
  note d = fs_writeStream_disk [OF s]
  show "q \<noteq> localPath \<Longrightarrow> disk w' q = disk w q"
    using assms s d(1) [of q]
    by (auto simp: on_response_def split: if_splits bool.splits dest: on_finish_disk)
  show "res = Inr (Downloaded hash newEtag newDate) \<Longrightarrow> disk w' localPath = Some (body r)"
    using assms s d(2)
    by (auto simp: on_response_def split: if_splits bool.splits dest: on_finish_disk)
qed

lemma downloadFile_disk:
  assumes "downloadFile e u localPath options w = (res, w')"
  shows "q \<noteq> localPath \<Longrightarrow> disk w' q = disk w q"
    and "res = Inr (Downloaded hash newEtag newDate) \<Longrightarrow>
           \<exists>r. server e u (request_headers (assign_options options)) = Response r
              \<and> disk w' localPath = Some (body r)"
proof -
  show "q \<noteq> localPath \<Longrightarrow> disk w' q = disk w q"
    using assms on_response_disk(1) [of e localPath _ _ _ res w' q]
    by (auto simp: downloadFile_def split: http_outcome.splits)
  show "res = Inr (Downloaded hash newEtag newDate) \<Longrightarrow>
           \<exists>r. server e u (request_headers (assign_options options)) = Response r
              \<and> disk w' localPath = Some (body r)"
    using assms on_response_disk(2) [of e localPath _ _ _ res w' hash newEtag newDate]
    by (auto simp: downloadFile_def split: http_outcome.splits)
qed

lemma hashPromise_disk: "hashPromise e update w = (h, w') \<Longrightarrow> disk w' = disk w"
  by (auto simp: hashPromise_def split: if_splits prod.splits sum.splits dest: hashFile_disk)

lemma hashPromise_io:
  assumes "hashPromise e update w = (h, w')" and "P (ReadStream (path update))"
  shows "only_calls P w w'"
proof (cases "existsSync w (path update)")
  case False
  with assms(1) show ?thesis by (simp add: hashPromise_def)
next
  case True
  obtain r w1 where h: "hashFile e (path update) (Some ''sha512'') w = (r, w1)"
    by (cases "hashFile e (path update) (Some ''sha512'') w")
  from hashFile_io [where P = P, OF h] assms(2) have "only_calls P w w1" by simp
  moreover from assms(1) True h have "io w' = io w1"
    by (auto simp: hashPromise_def split: sum.splits)
  ultimately show ?thesis by (auto simp: only_calls_def)
qed

lemma validated_disk: "validated e update file w = (r, w') \<Longrightarrow> disk w' = disk w"
  by (auto simp: validated_def split: if_splits dest: validateJSON_disk)

lemma validated_io:
  assumes "validated e update file w = (r, w')" and "P (ReadFile file)"
  shows "only_calls P w w'"
proof (cases "isJSON update")
  case True
  with assms(1) have "validateJSON e file w = (r, w')" by (simp add: validated_def)
  from validateJSON_io [where P = P, OF this] assms(2) show ?thesis by simp
next
  case False
  with assms(1) show ?thesis by (simp add: validated_def)
qed

lemma downloadPromise_disk:
  assumes "downloadPromise e update u file options togo w = (r, w')"
  shows "q \<noteq> file \<Longrightarrow> disk w' q = disk w q"
proof -
  obtain rd w1 where d: "downloadFile e u file options w = (rd, w1)"
    by (cases "downloadFile e u file options w")
  obtain rv w2 where v: "validated e update file w1 = (rv, w2)"
    by (cases "validated e update file w1")
  assume "q \<noteq> file"
  then have "disk w1 q = disk w q" using downloadFile_disk(1) [OF d] by simp
  moreover have "disk w2 = disk w1" using v by (rule validated_disk)
  moreover from assms d v have "disk w' = disk w1 \<or> disk w' = disk w2"
    by (auto simp: downloadPromise_def split: sum.splits DownloadResult.splits if_splits)
  ultimately show ?thesis by auto
qed

lemma downloadPromise_io:
  assumes "downloadPromise e update u file options togo w = (r, w')"
    and "P (ReadStream file)" and "P (WriteStream file)" and "P (ReadFile file)"
  shows "\<exists>rest. io w' = io w @ HttpGet u (request_headers (assign_options options)) # rest
           \<and> list_all P rest"
proof -
  obtain rd w1 where d: "downloadFile e u file options w = (rd, w1)"
    by (cases "downloadFile e u file options w")
  obtain rv w2 where v: "validated e update file w1 = (rv, w2)"
    by (cases "validated e update file w1")
  from downloadFile_io [where P = P, OF d] assms(2,3)
  obtain rest where r1: "io w1 = io w @ HttpGet u (request_headers (assign_options options)) # rest"
    and p1: "list_all P rest" by auto
  from validated_io [where P = P, OF v] assms(4)
  obtain rest2 where r2: "io w2 = io w1 @ rest2" and p2: "list_all P rest2"
    by (auto simp: only_calls_def)
  from assms(1) d v have "io w' = io w1 \<or> io w' = io w2"
    by (auto simp: downloadPromise_def split: sum.splits DownloadResult.splits if_splits)
  then show ?thesis
  proof
    assume "io w' = io w1"
    with r1 p1 show ?thesis by simp
  next
    assume "io w' = io w2"
    with r1 r2 p1 p2 have "io w' = io w @ HttpGet u (request_headers (assign_options options)) # (rest @ rest2)"
      and "list_all P (rest @ rest2)" by simp_all
    then show ?thesis by blast
  qed
qed

lemma ensure_directory_io:
  assumes "ensure_directory d w = (ok, w')" and "\<And>c. commit_call c \<Longrightarrow> P c"
  shows "only_calls P w w'"
  using assms
  by (auto simp: ensure_directory_def mkdirp_sync_def Let_def only_calls_def split: if_splits)

lemma moveFile_copy_io:
  assumes "moveFile s d True w = (r, w')" and P: "\<And>c. commit_call c \<Longrightarrow> P c"
  shows "only_calls P w w'"
proof -
  obtain ok w1 where e: "ensure_directory d w = (ok, w1)" by (cases "ensure_directory d w")
  obtain ok2 w2 where c: "fs_copyFile s d w1 = (ok2, w2)" by (cases "fs_copyFile s d w1")
  have a: "only_calls P w w1" using e P by (rule ensure_directory_io)
  have b: "only_calls P w1 w2" using fs_copyFile_io [OF c] P by (auto intro: only_calls_one)
  from assms(1) e c have "w' = w1 \<or> w' = w2"
    by (auto simp: moveFile.simps [of s d True w] split: bool.splits)
  with a only_calls_trans [OF a b] show ?thesis by auto
qed

lemma moveFile_io:
  assumes "moveFile s d copy w = (r, w')" and P: "\<And>c. commit_call c \<Longrightarrow> P c"
  shows "only_calls P w w'"
proof (cases copy)
  case True
  with assms show ?thesis by (auto intro: moveFile_copy_io)
next
  case False
  obtain ok w1 where e: "ensure_directory d w = (ok, w1)" by (cases "ensure_directory d w")
  obtain ok2 w2 where c: "fs_rename s d w1 = (ok2, w2)" by (cases "fs_rename s d w1")
  obtain r3 w3 where m: "moveFile s d True w2 = (r3, w3)" by (cases "moveFile s d True w2")
  have a: "only_calls P w w1" using e P by (rule ensure_directory_io)
  have b: "only_calls P w1 w2" using fs_rename_io [OF c] P by (auto intro: only_calls_one)
  have c3: "only_calls P w2 w3" using m P by (rule moveFile_copy_io)
  from assms(1) False e c m have "w' = w1 \<or> w' = w2 \<or> w' = w3"
    by (auto simp: moveFile.simps [of s d False w] split: bool.splits)
  with a only_calls_trans [OF a b] only_calls_trans [OF only_calls_trans [OF a b] c3]
  show ?thesis by auto
qed

lemma backupPromise_io:
  assumes "backupPromise e d w = (r, w')" and P: "\<And>c. commit_call c \<Longrightarrow> P c"
  shows "only_calls P w w'"
proof (cases "existsSync w d")
  case False
  with assms(1) show ?thesis by (simp add: backupPromise_missing)
next
  case True
  let ?p1 = "d @ ''.previous''"
  let ?p2 = "fallback_backupPath e ?p1"
  obtain ra wa where a: "moveFile d ?p1 False w = (ra, wa)" by (cases "moveFile d ?p1 False w")
  obtain rb wb where b: "moveFile d ?p2 False wa = (rb, wb)" by (cases "moveFile d ?p2 False wa")
  have ia: "only_calls P w wa" using a P by (rule moveFile_io)
  have ib: "only_calls P wa wb" using b P by (rule moveFile_io)
  from assms(1) a b have "w' = wa \<or> w' = wb"
    by (auto simp: backupPromise_existing [OF True] split: sum.splits)
  with ia only_calls_trans [OF ia ib] show ?thesis by auto
qed

lemma applyUpdate_io:
  assumes "applyUpdate e s d w = (r, w')" and P: "\<And>c. commit_call c \<Longrightarrow> P c"
  shows "only_calls P w w'"
proof -
  obtain rb w1 where b: "backupPromise e d w = (rb, w1)" by (cases "backupPromise e d w")
  obtain rm w2 where m: "moveFile s d True w1 = (rm, w2)" by (cases "moveFile s d True w1")
  obtain ok w3 where u: "fs_unlinkSync s w2 = (ok, w3)" by (cases "fs_unlinkSync s w2")
  have i1: "only_calls P w w1" using b P by (rule backupPromise_io)
  have i2: "only_calls P w1 w2" using m P by (rule moveFile_io)
  have i3: "only_calls P w2 w3" using fs_unlinkSync_io [OF u] P by (auto intro: only_calls_one)
  from assms(1) b m u have "w' = w1 \<or> w' = w2 \<or> w' = w3"
    by (auto simp: applyUpdate_unfold split: sum.splits bool.splits)
  with i1 only_calls_trans [OF i1 i2] only_calls_trans [OF only_calls_trans [OF i1 i2] i3]
  show ?thesis by auto
qed

lemma updatePromise_io:
  assumes "updatePromise e update file downloadHash localHash togo w = (r, w')"
    and P: "\<And>c. commit_call c \<Longrightarrow> P c"
  shows "only_calls P w w'"
proof (cases "downloadHash \<noteq> None \<and> downloadHash \<noteq> Some [] \<and> downloadHash \<noteq> localHash")
  case False
  with assms(1) show ?thesis by (auto simp: updatePromise_def)
next
  case True
  obtain ra wa where a: "applyUpdate e file (path update) w = (ra, wa)"
    by (cases "applyUpdate e file (path update) w")
  from assms(1) True a have "w' = wa"
    by (auto simp: updatePromise_def split: sum.splits)
  with applyUpdate_io [where P = P, OF a] P show ?thesis by simp
qed

lemma updatePromise_unchanged:
  assumes "\<not> (\<exists>h. downloadHash = Some h \<and> h \<noteq> [] \<and> localHash \<noteq> Some h)"
  shows "updatePromise e update file downloadHash localHash togo w = (Inr togo, w)"
  using assms by (cases downloadHash) (auto simp: updatePromise_def)

lemma updateFile_with_url:
  assumes "expand (url update) (secrets e) False = Inr (Some u)" and "u \<noteq> []"
  shows "updateFile e update lastUpdate w = updateFile_url e update lastUpdate u w"
  using assms by (simp add: updateFile_def)

lemma updateFile_url_settled:
  "updateFile_url e update lastUpdate u w =
     (case settled_download e update lastUpdate u w of
        (Inl err, w2) \<Rightarrow> (Inl err, w2)
      | (Inr (downloadHash, togo), w2) \<Rightarrow>
          updatePromise e update (update_tempFile e update w) downloadHash
            (localHash_of e update w) togo w2)"
  unfolding updateFile_url_def settled_download_def update_tempFile_def localHash_of_def
  by (rule refl)

lemma settled_download_disk:
  assumes "settled_download e update lastUpdate u w = (d, w2)"
  shows "q \<noteq> update_tempFile e update w \<Longrightarrow> disk w2 q = disk w q"
proof -
  obtain h w1 where hp: "hashPromise e update w = (h, w1)" by (cases "hashPromise e update w")
  assume "q \<noteq> update_tempFile e update w"
  with downloadPromise_disk [of e update u "update_tempFile e update w" _ lastUpdate "random_taken w1" d w2 q]
    assms hp hashPromise_disk [OF hp]
  show ?thesis by (simp add: settled_download_def)
qed

lemma settled_download_io:
  assumes "settled_download e update lastUpdate u w = (d, w2)"
    and "P (ReadStream (path update))"
    and "P (ReadStream (update_tempFile e update w))"
    and "P (WriteStream (update_tempFile e update w))"
    and "P (ReadFile (update_tempFile e update w))"
  shows "\<exists>pre post. io w2 = io w @ pre
            @ HttpGet u (request_headers (assign_options (downloadOptions update lastUpdate w))) # post
           \<and> list_all P pre \<and> list_all P post"
proof -
  obtain h w1 where hp: "hashPromise e update w = (h, w1)" by (cases "hashPromise e update w")
  from hashPromise_io [where P = P, OF hp] assms(2)
  obtain pre where pre: "io w1 = io w @ pre" "list_all P pre" by (auto simp: only_calls_def)
  from assms(1) hp have "downloadPromise e update u (update_tempFile e update w)
      (downloadOptions update lastUpdate w) lastUpdate (random_taken w1) = (d, w2)"
    by (simp add: settled_download_def)
  from downloadPromise_io [where P = P, OF this] assms(3-5)
  obtain post where "io w2 = io (random_taken w1)
      @ HttpGet u (request_headers (assign_options (downloadOptions update lastUpdate w))) # post"
    and "list_all P post" by auto
  with pre show ?thesis by auto
qed

lemma updateFile_url_io:
  assumes "updateFile_url e update lastUpdate u w = (r, w')"
    and "P (ReadStream (path update))"
    and "P (ReadStream (update_tempFile e update w))"
    and "P (WriteStream (update_tempFile e update w))"
    and "P (ReadFile (update_tempFile e update w))"
    and P: "\<And>c. commit_call c \<Longrightarrow> P c"
  shows "\<exists>pre post. io w' = io w @ pre
            @ HttpGet u (request_headers (assign_options (downloadOptions update lastUpdate w))) # post
           \<and> list_all P pre \<and> list_all P post"
proof -
  obtain d w2 where sd: "settled_download e update lastUpdate u w = (d, w2)"
    by (cases "settled_download e update lastUpdate u w")
  from settled_download_io [where P = P, OF sd] assms(2-5)
  obtain pre post where io2: "io w2 = io w @ pre
      @ HttpGet u (request_headers (assign_options (downloadOptions update lastUpdate w))) # post"
    and pp: "list_all P pre" "list_all P post" by blast
  have "only_calls P w2 w'"
  proof (cases d)
    case (Inl err)
    with assms(1) sd show ?thesis by (simp add: updateFile_url_settled)
  next
    case (Inr pair)
    obtain downloadHash togo where pair: "pair = (downloadHash, togo)" by (cases pair)
    with Inr assms(1) sd have "updatePromise e update (update_tempFile e update w) downloadHash
        (localHash_of e update w) togo w2 = (r, w')"
      by (simp add: updateFile_url_settled)
    from updatePromise_io [where P = P, OF this] P show ?thesis by simp
  qed
  then obtain rest where "io w' = io w2 @ rest" and "list_all P rest"
    by (auto simp: only_calls_def)
  with io2 pp have "io w' = io w @ pre
      @ HttpGet u (request_headers (assign_options (downloadOptions update lastUpdate w))) # (post @ rest)"
    and "list_all P pre" and "list_all P (post @ rest)" by simp_all
  then show ?thesis by blast
qed

text \<open>
  Claim C10. Once the URL is there, \<open>updateFile\<close> sends one request. It carries the
  conditional headers made of the stored ETag and date when the local file exists and
  the \<open>always\<close> flag is off; when the local file is missing, or \<open>always\<close> is on, it
  carries no header at all, whatever the journal holds.
\<close>

theorem updateFile_conditional_request:
  assumes "expand (url update) (secrets e) False = Inr (Some u)" and "u \<noteq> []"
  shows "filter http_call (io (snd (updateFile e update lastUpdate w))) =
           filter http_call (io w) @
           [HttpGet u
              (if existsSync w (path update) \<and> \<not> always update
               then request_headers (assign_options
                      (Some \<lparr>opt_date = date lastUpdate, opt_etag = etag lastUpdate,
                             opt_hashAlgorithm = None\<rparr>))
               else [])]"
proof -
  obtain r w' where run: "updateFile_url e update lastUpdate u w = (r, w')"
    by (cases "updateFile_url e update lastUpdate u w")
  have "\<And>c. commit_call c \<Longrightarrow> \<not> http_call c"
    by (case_tac c) simp_all
  with updateFile_url_io [where P = "\<lambda>c. \<not> http_call c", OF run]
  obtain pre post where "io w' = io w @ pre
      @ HttpGet u (request_headers (assign_options (downloadOptions update lastUpdate w))) # post"
    and "list_all (\<lambda>c. \<not> http_call c) pre" and "list_all (\<lambda>c. \<not> http_call c) post"
    by auto
  then have "filter http_call (io w') = filter http_call (io w)
      @ [HttpGet u (request_headers (assign_options (downloadOptions update lastUpdate w)))]"
    by (simp add: list_all_iff)
  moreover have "request_headers (assign_options (downloadOptions update lastUpdate w)) =
      (if existsSync w (path update) \<and> \<not> always update
       then request_headers (assign_options
              (Some \<lparr>opt_date = date lastUpdate, opt_etag = etag lastUpdate,
                     opt_hashAlgorithm = None\<rparr>))
       else [])"
    by (simp add: downloadOptions_def request_headers_def assign_options_def)
  ultimately show ?thesis
    using run by (simp add: updateFile_with_url [OF assms])
qed

theorem updateFile_conditional_request_witness:
  "expand (url example_file) (secrets example_env) False = Inr (Some ''https://x/f.json'')
   \<and> filter http_call (io (snd (updateFile example_env example_file example_lastUpdate same_world))) =
       [HttpGet ''https://x/f.json''
          [(''If-None-Match'', [dquote] @ ''v1'' @ [dquote]),
           (''If-Modified-Since'', ''Wed, 31 Dec 1969 00:00:00 GMT'')]]
   \<and> filter http_call (io (snd (updateFile example_env example_file example_lastUpdate missing_world))) =
       [HttpGet ''https://x/f.json'' []]"
proof -
  have u: "expand (url example_file) (secrets example_env) False = Inr (Some ''https://x/f.json'')"
    by code_simp
  have n: "''https://x/f.json'' \<noteq> []" by simp
  have headers: "request_headers (assign_options
        (Some \<lparr>opt_date = date example_lastUpdate, opt_etag = etag example_lastUpdate,
               opt_hashAlgorithm = None\<rparr>)) =
      [(''If-None-Match'', [dquote] @ ''v1'' @ [dquote]),
       (''If-Modified-Since'', ''Wed, 31 Dec 1969 00:00:00 GMT'')]"
    by (simp add: request_headers_def assign_options_def example_lastUpdate_def)
  have there: "existsSync same_world (path example_file) \<and> \<not> always example_file"
    by (simp add: existsSync_def same_world_def download_world_def example_file_def)
  have missing: "\<not> existsSync missing_world (path example_file)"
    by (simp add: existsSync_def missing_world_def download_world_def example_file_def)
  have "io same_world = []" and "io missing_world = []"
    by (simp_all add: same_world_def missing_world_def download_world_def)
  with updateFile_conditional_request [OF u n, of example_lastUpdate same_world]
    updateFile_conditional_request [OF u n, of example_lastUpdate missing_world]
    headers there missing u
  show ?thesis by simp
qed

lemma updateFile_url_unchanged:
  assumes "\<not> new_hash e update lastUpdate u w"
    and run: "updateFile_url e update lastUpdate u w = (r, w')"
  shows "w' = snd (settled_download e update lastUpdate u w)"
proof -
  obtain d w2 where sd: "settled_download e update lastUpdate u w = (d, w2)"
    by (cases "settled_download e update lastUpdate u w")
  show ?thesis
  proof (cases d)
    case (Inl err)
    with run sd show ?thesis by (simp add: updateFile_url_settled)
  next
    case (Inr pair)
    obtain downloadHash togo where pair: "pair = (downloadHash, togo)" by (cases pair)
    with Inr sd assms(1)
    have "\<not> (\<exists>h. downloadHash = Some h \<and> h \<noteq> [] \<and> localHash_of e update w \<noteq> Some h)"
      by (auto simp: new_hash_def downloadHash_of_def)
    from updatePromise_unchanged [OF this] run sd Inr pair show ?thesis
      by (simp add: updateFile_url_settled)
  qed
qed

lemma settled_download_no_commit:
  "filter commit_call (io (snd (settled_download e update lastUpdate u w))) = filter commit_call (io w)"
proof -
  obtain d w2 where sd: "settled_download e update lastUpdate u w = (d, w2)"
    by (cases "settled_download e update lastUpdate u w")
  from settled_download_io [where P = "\<lambda>c. \<not> commit_call c", OF sd]
  obtain pre post where "io w2 = io w @ pre
      @ HttpGet u (request_headers (assign_options (downloadOptions update lastUpdate w))) # post"
    and "list_all (\<lambda>c. \<not> commit_call c) pre" and "list_all (\<lambda>c. \<not> commit_call c) post"
    by auto
  with sd show ?thesis by (simp add: list_all_iff)
qed

text \<open>
  Claim C1. Once the URL is there: the commit procedure makes a call, or a file other
  than the temporary file changes, only when the downloaded content has a hash and that
  hash is not the hash \<open>updateFile\<close> has of the installed file (it has none when
  there is no such file or when hashing it failed). When the two hashes are equal,
  nothing but the temporary file has changed and the commit procedure made no call,
  whatever the response was.
\<close>

theorem updateFile_replaces_only_on_new_hash:
  assumes "expand (url update) (secrets e) False = Inr (Some u)" and "u \<noteq> []"
  shows "(filter commit_call (io (snd (updateFile e update lastUpdate w))) \<noteq> filter commit_call (io w)
            \<longrightarrow> new_hash e update lastUpdate u w)
       \<and> (\<forall>p. p \<noteq> update_tempFile e update w
                \<longrightarrow> disk (snd (updateFile e update lastUpdate w)) p \<noteq> disk w p
                \<longrightarrow> new_hash e update lastUpdate u w)
       \<and> (downloadHash_of (fst (settled_download e update lastUpdate u w)) = localHash_of e update w
            \<longrightarrow> filter commit_call (io (snd (updateFile e update lastUpdate w))) = filter commit_call (io w)
              \<and> (\<forall>p. p \<noteq> update_tempFile e update w
                       \<longrightarrow> disk (snd (updateFile e update lastUpdate w)) p = disk w p))"
proof -
  obtain r w' where run: "updateFile_url e update lastUpdate u w = (r, w')"
    by (cases "updateFile_url e update lastUpdate u w")
  then have w': "snd (updateFile e update lastUpdate w) = w'"
    by (simp add: updateFile_with_url [OF assms])
  have quiet: "filter commit_call (io w') = filter commit_call (io w)
      \<and> (\<forall>p. p \<noteq> update_tempFile e update w \<longrightarrow> disk w' p = disk w p)"
    if "\<not> new_hash e update lastUpdate u w"
  proof -
    from updateFile_url_unchanged [OF that run]
    have eq: "w' = snd (settled_download e update lastUpdate u w)" .
    have "disk w' p = disk w p" if "p \<noteq> update_tempFile e update w" for p
      using settled_download_disk [of e update lastUpdate u w _ w' p] that eq
      by (cases "settled_download e update lastUpdate u w") simp
    with eq settled_download_no_commit [of e update lastUpdate u w] show ?thesis by simp
  qed
  have equal: "\<not> new_hash e update lastUpdate u w"
    if "downloadHash_of (fst (settled_download e update lastUpdate u w)) = localHash_of e update w"
    using that by (simp add: new_hash_def split: option.splits)
  from quiet equal show ?thesis unfolding w' by blast
qed

theorem updateFile_replaces_only_on_new_hash_witness:
  "expand (url example_file) (secrets example_env) False = Inr (Some ''https://x/f.json'')
   \<and> disk (snd (updateFile example_env example_file example_lastUpdate stale_world)) ''/cfg/f.json''
       = Some ''new''
   \<and> disk stale_world ''/cfg/f.json'' = Some ''old''
   \<and> new_hash example_env example_file example_lastUpdate ''https://x/f.json'' stale_world
   \<and> downloadHash_of (fst (settled_download example_env example_file example_lastUpdate
         ''https://x/f.json'' same_world)) = localHash_of example_env example_file same_world
   \<and> disk (snd (updateFile example_env example_file example_lastUpdate same_world)) ''/cfg/f.json''
       = disk same_world ''/cfg/f.json''
   \<and> disk (snd (updateFile example_env example_file example_lastUpdate same_world))
        ''/cfg/f.json.previous'' = disk same_world ''/cfg/f.json.previous''"
proof -
  have u: "expand (url example_file) (secrets example_env) False = Inr (Some ''https://x/f.json'')"
    by code_simp
  have n: "''https://x/f.json'' \<noteq> []" by simp
  have replaced: "disk (snd (updateFile example_env example_file example_lastUpdate stale_world))
      ''/cfg/f.json'' = Some ''new''"
    by code_simp
  have old: "disk stale_world ''/cfg/f.json'' = Some ''old''"
    by (simp add: stale_world_def)
  have t1: "''/cfg/f.json'' \<noteq> update_tempFile example_env example_file stale_world"
    by code_simp
  have t2: "''/cfg/f.json'' \<noteq> update_tempFile example_env example_file same_world"
    by code_simp
  have t3: "''/cfg/f.json.previous'' \<noteq> update_tempFile example_env example_file same_world"
    by code_simp
  have same: "downloadHash_of (fst (settled_download example_env example_file example_lastUpdate
      ''https://x/f.json'' same_world)) = localHash_of example_env example_file same_world"
    by code_simp
  note stale = updateFile_replaces_only_on_new_hash [OF u n, of example_lastUpdate stale_world]
  note unchanged = updateFile_replaces_only_on_new_hash [OF u n, of example_lastUpdate same_world]
  from stale replaced old t1
  have "new_hash example_env example_file example_lastUpdate ''https://x/f.json'' stale_world"
    by auto
  moreover from unchanged same t2 t3
  have "disk (snd (updateFile example_env example_file example_lastUpdate same_world)) ''/cfg/f.json''
       = disk same_world ''/cfg/f.json''"
    and "disk (snd (updateFile example_env example_file example_lastUpdate same_world))
        ''/cfg/f.json.previous'' = disk same_world ''/cfg/f.json.previous''"
    by blast+
  ultimately show ?thesis using u replaced old same by blast
qed

lemma settled_download_valid:
  assumes dl: "fst (update_download e update lastUpdate u w) = Inr (Downloaded h newEtag newDate)"
    and valid: "fst (validated e update (update_tempFile e update w)
                       (snd (update_download e update lastUpdate u w))) = Inr True"
  shows "settled_download e update lastUpdate u w =
           (Inr (Some h, lastUpdate\<lparr>etag := newEtag, date := newDate\<rparr>),
            snd (validated e update (update_tempFile e update w)
                   (snd (update_download e update lastUpdate u w))))"
proof -
  obtain rd w1 where d: "update_download e update lastUpdate u w = (rd, w1)"
    by (cases "update_download e update lastUpdate u w")
  obtain rv w2 where v: "validated e update (update_tempFile e update w) w1 = (rv, w2)"
    by (cases "validated e update (update_tempFile e update w) w1")
  from dl d have rd: "rd = Inr (Downloaded h newEtag newDate)" by simp
  from valid d v have rv: "rv = Inr True" by simp
  from d rd have "downloadFile e u (update_tempFile e update w) (downloadOptions update lastUpdate w)
       (random_taken (snd (hashPromise e update w))) = (Inr (Downloaded h newEtag newDate), w1)"
    by (simp add: update_download_def)
  with v rv d show ?thesis
    by (simp add: settled_download_def downloadPromise_def)
qed

text \<open>
  Claim C6, as amended. When the download resolves with a result whose hash is the hash
  of the local file, and the content is valid, \<open>updateFile\<close> resolves with the
  journal entry it was given, its ETag and date replaced by those of the result (which
  are those of the 200 response) and its \<open>previous\<close> field as it was. The commit
  procedure has made no call and no file but the temporary file has changed; the
  temporary file holds the body of the response and stays where it is.
\<close>

theorem updateFile_unchanged_content:
  assumes "expand (url update) (secrets e) False = Inr (Some u)" and "u \<noteq> []"
    and dl: "fst (update_download e update lastUpdate u w) = Inr (Downloaded h newEtag newDate)"
    and valid: "fst (validated e update (update_tempFile e update w)
                       (snd (update_download e update lastUpdate u w))) = Inr True"
    and same: "localHash_of e update w = Some h"
  shows "fst (updateFile e update lastUpdate w) = Inr (lastUpdate\<lparr>etag := newEtag, date := newDate\<rparr>)
       \<and> previous (lastUpdate\<lparr>etag := newEtag, date := newDate\<rparr>) = previous lastUpdate
       \<and> (\<forall>p. p \<noteq> update_tempFile e update w
                \<longrightarrow> disk (snd (updateFile e update lastUpdate w)) p = disk w p)
       \<and> filter commit_call (io (snd (updateFile e update lastUpdate w))) = filter commit_call (io w)
       \<and> (\<exists>r. server e u (request_headers (assign_options (downloadOptions update lastUpdate w)))
                 = Response r
              \<and> statusCode r = 200
              \<and> newEtag = etag_amended r
              \<and> newDate = date_amended r
              \<and> disk (snd (updateFile e update lastUpdate w)) (update_tempFile e update w)
                  = Some (body r))"
proof -
  let ?tf = "update_tempFile e update w"
  let ?dl = "update_download e update lastUpdate u w"
  let ?w3 = "snd (validated e update ?tf (snd ?dl))"
  let ?togo = "lastUpdate\<lparr>etag := newEtag, date := newDate\<rparr>"
  note sd = settled_download_valid [OF dl valid]
  have "updatePromise e update ?tf (Some h) (localHash_of e update w) ?togo ?w3 = (Inr ?togo, ?w3)"
    using same by (intro updatePromise_unchanged) simp
  with sd have run: "updateFile e update lastUpdate w = (Inr ?togo, ?w3)"
    by (simp add: updateFile_with_url [OF assms(1,2)] updateFile_url_settled)
  have frame: "disk ?w3 p = disk w p" if "p \<noteq> ?tf" for p
    using settled_download_disk [OF sd that] .
  have quiet: "filter commit_call (io ?w3) = filter commit_call (io w)"
    using settled_download_no_commit [of e update lastUpdate u w] sd by simp
  have d: "downloadFile e u ?tf (downloadOptions update lastUpdate w)
      (random_taken (snd (hashPromise e update w))) = (Inr (Downloaded h newEtag newDate), snd ?dl)"
    using dl by (simp add: update_download_def prod_eq_iff)
  from downloaded_etag_date [OF d] downloadFile_disk(2) [OF d refl]
  obtain r where r: "server e u (request_headers (assign_options (downloadOptions update lastUpdate w)))
        = Response r" "statusCode r = 200" "newEtag = etag_amended r" "newDate = date_amended r"
    and written: "disk (snd ?dl) ?tf = Some (body r)"
    by auto
  have "disk ?w3 = disk (snd ?dl)"
    by (rule validated_disk [of e update ?tf "snd ?dl" "fst (validated e update ?tf (snd ?dl))"]) simp
  with written have "disk ?w3 ?tf = Some (body r)" by simp
  with r run frame quiet show ?thesis by auto
qed

theorem updateFile_unchanged_content_witness:
  "expand (url example_file) (secrets example_env) False = Inr (Some ''https://x/f.json'')
   \<and> fst (update_download example_env example_file example_lastUpdate ''https://x/f.json'' same_world)
       = Inr (Downloaded ''#new'' (Some ''v2'') (Some ''Thu, 01 Jan 1970 00:00:00 GMT''))
   \<and> localHash_of example_env example_file same_world = Some ''#new''
   \<and> fst (updateFile example_env example_file example_lastUpdate same_world) =
       Inr (example_lastUpdate\<lparr>etag := Some ''v2'', date := Some ''Thu, 01 Jan 1970 00:00:00 GMT''\<rparr>)
   \<and> disk (snd (updateFile example_env example_file example_lastUpdate same_world)) ''/cfg/f.json''
       = disk same_world ''/cfg/f.json''"
proof -
  have u: "expand (url example_file) (secrets example_env) False = Inr (Some ''https://x/f.json'')"
    by code_simp
  have n: "''https://x/f.json'' \<noteq> []" by simp
  have dl: "fst (update_download example_env example_file example_lastUpdate ''https://x/f.json'' same_world)
       = Inr (Downloaded ''#new'' (Some ''v2'') (Some ''Thu, 01 Jan 1970 00:00:00 GMT''))"
    by code_simp
  have valid: "fst (validated example_env example_file (update_tempFile example_env example_file same_world)
      (snd (update_download example_env example_file example_lastUpdate ''https://x/f.json'' same_world)))
      = Inr True"
    by code_simp
  have same: "localHash_of example_env example_file same_world = Some ''#new''"
    by code_simp
  have t: "''/cfg/f.json'' \<noteq> update_tempFile example_env example_file same_world"
    by code_simp
  from updateFile_unchanged_content [OF u n dl valid same] t u dl same show ?thesis
    by blast
qed

text \<open>
  The claim as it stands has no file system mutation at all. The download has written
  the temporary file, and \<open>updateFile\<close> leaves it there: only \<open>applyUpdate\<close> removes it.
\<close>

theorem updateFile_leaves_temp_file_counterexample:
  "localHash_of example_env example_file same_world = Some ''#new''
   \<and> fst (update_download example_env example_file example_lastUpdate ''https://x/f.json'' same_world)
       = Inr (Downloaded ''#new'' (Some ''v2'') (Some ''Thu, 01 Jan 1970 00:00:00 GMT''))
   \<and> disk same_world example_tempFile = None
   \<and> disk (snd (updateFile example_env example_file example_lastUpdate same_world)) example_tempFile
       = Some ''new''"
  by code_simp

subsection \<open>The update cycle\<close>

lemma file_promise_settles:
  "file_promise e lastUpdates file w =
     (Inr (outcome_assignment e lastUpdates file w),
      case fst (updateFile e file (entry lastUpdates (path file)) w) of
        Inr newLastUpdate \<Rightarrow> snd (updateFile e file (entry lastUpdates (path file)) w)
      | Inl err \<Rightarrow> logged LogWarn ''updateFile error''
                    (snd (updateFile e file (entry lastUpdates (path file)) w)))"
  by (cases "updateFile e file (entry lastUpdates (path file)) w")
     (auto simp: file_promise_def and_then_def caught_def outcome_assignment_def split: sum.splits)

lemma file_promise_fst:
  "fst (file_promise e lastUpdates file w) = Inr (outcome_assignment e lastUpdates file w)"
  by (simp add: file_promise_settles)

lemma promise_all_Cons_resolved:
  assumes "p w = (Inr v, w1)" and "promise_all ps w1 = (Inr vs, w2)"
  shows "promise_all (p # ps) w = (Inr (v # vs), w2)"
  using assms by simp

lemma promise_all_file_promises:
  "fst (promise_all (map (file_promise e lastUpdates) fs) w) =
     Inr (map2 (outcome_assignment e lastUpdates) fs
            (worlds_before (map (file_promise e lastUpdates) fs) w))"
proof (induction fs arbitrary: w)
  case Nil
  show ?case by simp
next
  case (Cons f fs)
  let ?p = "file_promise e lastUpdates f"
  let ?ps = "map (file_promise e lastUpdates) fs"
  let ?w1 = "snd (?p w)"
  have first: "?p w = (Inr (outcome_assignment e lastUpdates f w), ?w1)"
    by (simp only: prod_eq_iff fst_conv snd_conv file_promise_fst simp_thms)
  have rest: "promise_all ?ps ?w1 =
      (Inr (map2 (outcome_assignment e lastUpdates) fs (worlds_before ?ps ?w1)),
       snd (promise_all ?ps ?w1))"
    by (simp only: prod_eq_iff fst_conv snd_conv Cons.IH simp_thms)
  have "promise_all (?p # ?ps) w =
      (Inr (outcome_assignment e lastUpdates f w
            # map2 (outcome_assignment e lastUpdates) fs (worlds_before ?ps ?w1)),
       snd (promise_all ?ps ?w1))"
    by (rule promise_all_Cons_resolved [where p = ?p and w = w, OF first rest])
  then show ?case
    by (simp only: list.map fst_conv worlds_before.simps zip_Cons_Cons prod.case)
qed

lemma promise_all_file_promises_snd:
  "snd (promise_all (map (file_promise e lastUpdates) (f # fs)) w) =
     snd (promise_all (map (file_promise e lastUpdates) fs) (snd (file_promise e lastUpdates f w)))"
proof -
  let ?p = "file_promise e lastUpdates f"
  let ?ps = "map (file_promise e lastUpdates) fs"
  let ?w1 = "snd (?p w)"
  have first: "?p w = (Inr (outcome_assignment e lastUpdates f w), ?w1)"
    by (simp only: prod_eq_iff fst_conv snd_conv file_promise_fst simp_thms)
  have rest: "promise_all ?ps ?w1 =
      (Inr (map2 (outcome_assignment e lastUpdates) fs (worlds_before ?ps ?w1)),
       snd (promise_all ?ps ?w1))"
    by (simp only: prod_eq_iff fst_conv snd_conv promise_all_file_promises simp_thms)
  from promise_all_Cons_resolved [where p = ?p and w = w, OF first rest] show ?thesis
    by (simp only: list.map snd_conv)
qed

lemma temp_file_tempFile: "temp_file e (tempFile e w)"
  by (auto simp: temp_file_def tempFile_def)

lemma updateFile_io:
  assumes "updateFile e update lastUpdate w = (r, w')"
  shows "only_calls (update_call e) w w'"
proof (cases "\<exists>u. expand (url update) (secrets e) False = Inr (Some u) \<and> u \<noteq> []")
  case False
  with assms have "io w' = io w"
    by (auto simp: updateFile_def split: option.splits if_splits sum.splits)
  then show ?thesis by (rule only_calls_same_io)
next
  case True
  then obtain u where u: "expand (url update) (secrets e) False = Inr (Some u)" "u \<noteq> []" by blast
  with assms have run: "updateFile_url e update lastUpdate u w = (r, w')"
    by (simp add: updateFile_with_url)
  have commit: "\<And>c. commit_call c \<Longrightarrow> update_call e c"
    by (case_tac c) (simp_all add: update_call_def)
  have "update_call e (ReadFile (update_tempFile e update w))"
    by (simp add: update_call_def update_tempFile_def temp_file_tempFile)
  with updateFile_url_io [where P = "update_call e", OF run] commit
  obtain pre post where "io w' = io w @ pre
      @ HttpGet u (request_headers (assign_options (downloadOptions update lastUpdate w))) # post"
    and "list_all (update_call e) pre" and "list_all (update_call e) post"
    by (auto simp: update_call_def)
  then show ?thesis by (auto simp: only_calls_def update_call_def)
qed

lemma file_promise_io: "only_calls (update_call e) w (snd (file_promise e lastUpdates f w))"
proof -
  have "only_calls (update_call e) w (snd (updateFile e f (entry lastUpdates (path f)) w))"
    by (rule updateFile_io [of e f "entry lastUpdates (path f)" w
          "fst (updateFile e f (entry lastUpdates (path f)) w)"]) simp
  then show ?thesis
    by (simp add: file_promise_settles split: sum.splits)
qed

lemma promise_all_io:
  "only_calls (update_call e) w (snd (promise_all (map (file_promise e lastUpdates) fs) w))"
proof (induction fs arbitrary: w)
  case Nil
  show ?case by (simp add: only_calls_same_io)
next
  case (Cons f fs)
  from only_calls_trans [OF file_promise_io [of e w lastUpdates f]
      Cons.IH [of "snd (file_promise e lastUpdates f w)"]]
  show ?case by (simp only: promise_all_file_promises_snd)
qed

lemma loadLastUpdates_resolves:
  "loadLastUpdates e None (logged LogImportant ''Checking for configuration updates'' w) =
     (Inr (loaded_journal e w), loaded_world e w)"
  by (simp add: loaded_journal_def loaded_world_def loadLastUpdates_def
      split: prod.splits option.splits parsed.splits)

lemma loaded_world_io: "io (loaded_world e w) = io w @ [ReadFile (lastUpdatesFile e)]"
proof -
  obtain r w1 where rf: "fs_readFile (journal_path e None)
      (logged LogImportant ''Checking for configuration updates'' w) = (r, w1)"
    by (cases "fs_readFile (journal_path e None) (logged LogImportant ''Checking for configuration updates'' w)")
  from fs_readFile_io [OF rf] have "io w1 = io w @ [ReadFile (lastUpdatesFile e)]"
    by (simp add: journal_path_def)
  moreover from rf have "io (loaded_world e w) = io w1"
    by (simp add: loaded_world_def loadLastUpdates_def split: option.splits parsed.splits)
  ultimately show ?thesis by simp
qed

lemma saveLastUpdates_io:
  "io (snd (saveLastUpdates e lastUpdates None w)) =
     io w @ [WriteFile (lastUpdatesFile e) (journal_content e lastUpdates)]"
proof -
  obtain ok w1 where wf: "fs_writeFile (journal_path e None) (journal_content e lastUpdates) w = (ok, w1)"
    by (cases "fs_writeFile (journal_path e None) (journal_content e lastUpdates) w")
  from fs_writeFile_io [OF wf] wf show ?thesis
    by (cases ok) (simp_all add: saveLastUpdates_def journal_path_def)
qed

lemma and_then_resolved: "fst p = Inr v \<Longrightarrow> and_then p callback = callback v (snd p)"
  by (cases p) (simp add: and_then_def)

lemma updateAll_unfold:
  "updateAll e w =
     (Inr (),
      snd (saveLastUpdates e (saved_journal e w) None
             (snd (promise_all (map (file_promise e (loaded_journal e w)) (autoUpdateFiles e))
                     (loaded_world e w)))))"
proof -
  let ?all = "promise_all (map (file_promise e (loaded_journal e w)) (autoUpdateFiles e)) (loaded_world e w)"
  have all: "fst ?all = Inr (cycle_assignments e w)"
    by (simp add: cycle_assignments_def promise_all_file_promises)
  have load: "fst (loadLastUpdates e None (logged LogImportant ''Checking for configuration updates'' w))
      = Inr (loaded_journal e w)"
    by (simp add: loadLastUpdates_resolves)
  show ?thesis
    unfolding updateAll_def loadLastUpdates_resolves
    by (simp add: and_then_resolved [OF all] and_then_resolved [where p = "(Inr x, y)" for x y, simplified]
        saved_journal_def)
qed

lemma assigned_unchanged:
  "(\<And>v. (p, v) \<in> set assignments \<Longrightarrow> v = None) \<Longrightarrow> assigned assignments m p = m p"
proof (induction assignments m rule: assigned.induct)
  case (1 m)
  show ?case by simp
next
  case (2 q rest m)
  have "assigned rest m p = m p"
    by (rule 2(1)) (rule 2(2), simp)
  then show ?case by simp
next
  case (3 q newLastUpdate rest m)
  from 3(2) [of "Some newLastUpdate"] have neq: "q \<noteq> p" by auto
  have "assigned rest (m(q \<mapsto> newLastUpdate)) p = (m(q \<mapsto> newLastUpdate)) p"
    by (rule 3(1)) (rule 3(2), simp)
  also from neq have "\<dots> = m p" by simp
  finally show ?case by simp
qed

lemma assigned_same_entry:
  "(\<And>v. (p, v) \<in> set assignments \<Longrightarrow> v = None \<or> v = Some l) \<Longrightarrow>
   (case m p of Some x \<Rightarrow> x | None \<Rightarrow> no_entry) = l \<Longrightarrow>
   (case assigned assignments m p of Some x \<Rightarrow> x | None \<Rightarrow> no_entry) = l"
proof (induction assignments m rule: assigned.induct)
  case (1 m)
  then show ?case by simp
next
  case (2 q rest m)
  have "(case assigned rest m p of Some x \<Rightarrow> x | None \<Rightarrow> no_entry) = l"
    by (rule 2(1)) (rule 2(2), simp, rule 2(3))
  then show ?case by simp
next
  case (3 q newLastUpdate rest m)
  have start: "(case (m(q \<mapsto> newLastUpdate)) p of Some x \<Rightarrow> x | None \<Rightarrow> no_entry) = l"
  proof (cases "q = p")
    case True
    with 3(2) [of "Some newLastUpdate"] show ?thesis by simp
  next
    case False
    with 3(3) show ?thesis by simp
  qed
  have "(case assigned rest (m(q \<mapsto> newLastUpdate)) p of Some x \<Rightarrow> x | None \<Rightarrow> no_entry) = l"
    by (rule 3(1)) (rule 3(2), simp, rule start)
  then show ?case by simp
qed

text \<open>
  Claim C4. \<open>updateAll\<close> resolves, whatever happens. Its first I/O call reads the
  journal and its last one writes it, with the content made of the journal as loaded
  and the assignments of the cycle; in between are the calls of the per-file updates
  alone, which never write with \<open>fs.writeFile\<close> and read with \<open>fs.readFile\<close> only
  temporary files. The promises of all the tracked files settle without a rejection:
  every file is updated in its turn, in the world that the files before it left, whether
  these failed or not, and gives an assignment to the journal, none when its
  \<open>updateFile\<close> rejected. A path whose updates all rejected keeps the journal entry
  that was loaded, and one whose updates rejected or resolved with the entry as loaded
  reads as that entry.
\<close>

theorem updateAll_isolates_failures:
  "fst (updateAll e w) = Inr ()
   \<and> loadLastUpdates e None (logged LogImportant ''Checking for configuration updates'' w) =
       (Inr (loaded_journal e w), loaded_world e w)
   \<and> fst (promise_all (map (file_promise e (loaded_journal e w)) (autoUpdateFiles e)) (loaded_world e w))
       = Inr (cycle_assignments e w)
   \<and> cycle_assignments e w =
       map2 (outcome_assignment e (loaded_journal e w)) (autoUpdateFiles e)
         (worlds_before (map (file_promise e (loaded_journal e w)) (autoUpdateFiles e)) (loaded_world e w))
   \<and> (\<exists>mid. io (snd (updateAll e w)) =
               io w @ ReadFile (lastUpdatesFile e) # mid
                 @ [WriteFile (lastUpdatesFile e) (journal_content e (saved_journal e w))]
            \<and> list_all (update_call e) mid)
   \<and> (\<forall>p. (\<forall>a \<in> set (cycle_assignments e w). fst a = p \<longrightarrow> snd a = None)
          \<longrightarrow> entries (saved_journal e w) p = entries (loaded_journal e w) p)
   \<and> (\<forall>p. (\<forall>a \<in> set (cycle_assignments e w).
               fst a = p \<longrightarrow> snd a = None \<or> snd a = Some (entry (loaded_journal e w) p))
          \<longrightarrow> entry (saved_journal e w) p = entry (loaded_journal e w) p)"
proof -
  let ?J = "loaded_journal e w"
  let ?ps = "map (file_promise e ?J) (autoUpdateFiles e)"
  let ?w2 = "snd (promise_all ?ps (loaded_world e w))"
  have resolves: "fst (updateAll e w) = Inr ()"
    by (simp add: updateAll_unfold)
  have all: "fst (promise_all ?ps (loaded_world e w)) = Inr (cycle_assignments e w)"
    by (simp add: cycle_assignments_def promise_all_file_promises)
  have each: "cycle_assignments e w =
      map2 (outcome_assignment e ?J) (autoUpdateFiles e) (worlds_before ?ps (loaded_world e w))"
    by (simp add: cycle_assignments_def promise_all_file_promises)
  from promise_all_io [of e "loaded_world e w" ?J "autoUpdateFiles e"]
  obtain mid where mid: "io ?w2 = io (loaded_world e w) @ mid" "list_all (update_call e) mid"
    by (auto simp: only_calls_def)
  have "io (snd (updateAll e w)) =
      io w @ ReadFile (lastUpdatesFile e) # mid
        @ [WriteFile (lastUpdatesFile e) (journal_content e (saved_journal e w))]"
    by (simp add: updateAll_unfold saveLastUpdates_io mid(1) loaded_world_io)
  with mid(2) have trace: "\<exists>mid. io (snd (updateAll e w)) =
      io w @ ReadFile (lastUpdatesFile e) # mid
        @ [WriteFile (lastUpdatesFile e) (journal_content e (saved_journal e w))]
      \<and> list_all (update_call e) mid" by blast
  have saved: "entries (saved_journal e w) = assigned (cycle_assignments e w) (entries ?J)"
    by (simp add: saved_journal_def entries_def)
  have kept: "entries (saved_journal e w) p = entries ?J p"
    if none: "\<forall>a \<in> set (cycle_assignments e w). fst a = p \<longrightarrow> snd a = None" for p
  proof -
    have "assigned (cycle_assignments e w) (entries ?J) p = entries ?J p"
    proof (rule assigned_unchanged)
      fix v assume "(p, v) \<in> set (cycle_assignments e w)"
      with none show "v = None" by fastforce
    qed
    with saved show ?thesis by simp
  qed
  have reads: "entry (saved_journal e w) p = entry ?J p"
    if same: "\<forall>a \<in> set (cycle_assignments e w).
          fst a = p \<longrightarrow> snd a = None \<or> snd a = Some (entry ?J p)" for p
  proof -
    have "(case assigned (cycle_assignments e w) (entries ?J) p of Some x \<Rightarrow> x | None \<Rightarrow> no_entry)
        = entry ?J p"
    proof (rule assigned_same_entry)
      fix v assume "(p, v) \<in> set (cycle_assignments e w)"
      with same show "v = None \<or> v = Some (entry ?J p)" by fastforce
    next
      show "(case entries ?J p of Some x \<Rightarrow> x | None \<Rightarrow> no_entry) = entry ?J p"
        by (simp add: entry_def)
    qed
    with saved show ?thesis by (simp add: entry_def)
  qed
  from resolves loadLastUpdates_resolves [of e w] all each trace kept reads
  show ?thesis by blast
qed

theorem updateAll_isolates_failures_witness:
  "fst (updateAll two_files_env failing_world) = Inr ()
   \<and> cycle_assignments two_files_env failing_world =
       [(''/cfg/f.json'', None),
        (''/cfg/g.txt'',
         Some \<lparr>etag = Some ''v2'', date = Some ''Thu, 01 Jan 1970 00:00:00 GMT'', previous = None\<rparr>)]
   \<and> entries (saved_journal two_files_env failing_world) ''/cfg/f.json'' =
       entries (loaded_journal two_files_env failing_world) ''/cfg/f.json''"
proof -
  have assignments: "cycle_assignments two_files_env failing_world =
      [(''/cfg/f.json'', None),
       (''/cfg/g.txt'',
        Some \<lparr>etag = Some ''v2'', date = Some ''Thu, 01 Jan 1970 00:00:00 GMT'', previous = None\<rparr>)]"
    by code_simp
  have rejected: "\<forall>a \<in> set (cycle_assignments two_files_env failing_world).
      fst a = ''/cfg/f.json'' \<longrightarrow> snd a = None"
    unfolding assignments by simp
  from updateAll_isolates_failures [of two_files_env failing_world] rejected assignments
  show ?thesis by blast
qed

end
